theory Spec2Isabelle
  imports Main
begin

section \<open>Strings and the digit localizer\<close>

text \<open>
  A JavaScript string is a sequence of UTF-16 code units; \<open>split("")\<close> cuts it into
  its code units and \<open>join("")\<close> concatenates them again. A code unit is modelled by
  its numeric value, so \<open>48\<close> is the character 0, \<open>45\<close> the hyphen-minus and
  \<open>2406\<close> (U+0966) the Devanagari digit zero.
\<close>

type_synonym jschar = nat
type_synonym jsstring = "jschar list"

text \<open>
  Modelled from the spec: \<open>constants.ts\<close> of the shared package is not among the
  sources. \<open>NEPALI_DIGITS\<close> is the fixed ordered 10-element glyph table; its entries
  are the Devanagari digits U+0966 .. U+096F, as in the two application copies and in the
  examples of the doc comment of \<open>toNepaliDigits\<close>.
\<close>

definition NEPALI_DIGITS :: "jsstring list" where
  "NEPALI_DIGITS = [[2406], [2407], [2408], [2409], [2410], [2411], [2412], [2413], [2414], [2415]]"

text \<open>
  \<open>parseInt(char, 10)\<close> on a string of one code unit: the digit value for the ASCII
  digits, \<open>NaN\<close> (here \<open>None\<close>) for every other code unit.
\<close>

definition parseInt10 :: "jschar \<Rightarrow> nat option" where
  "parseInt10 char = (if 48 \<le> char \<and> char \<le> 57 then Some (char - 48) else None)"

definition toNepaliDigits :: "jsstring \<Rightarrow> jsstring" where
  "toNepaliDigits num =
     concat (map (\<lambda>char. case parseInt10 char of
                            None \<Rightarrow> [char]
                          | Some digit \<Rightarrow> NEPALI_DIGITS ! digit) num)"

text \<open>
  A JavaScript number is modelled by an integer. The model is exact on the safe integers,
  those of magnitude at most \<open>2^53 - 1 = 9007199254740991\<close>: there the arithmetic of the
  code is integer arithmetic, and \<open>String(n)\<close> and \<open>n.toString()\<close> give the decimal
  numeral, with a leading hyphen-minus for a negative number. For a number outside that
  range JavaScript rounds the digits or writes exponent notation (\<open>String(1e21)\<close> is
  \<open>1e+21\<close>); that text is not modelled: it is the parameter \<open>big\<close>.
\<close>

fun decimal :: "nat \<Rightarrow> jsstring" where
  "decimal n = (if n < 10 then [48 + n] else decimal (n div 10) @ [48 + n mod 10])"

definition Number_toString :: "(int \<Rightarrow> jsstring) \<Rightarrow> int \<Rightarrow> jsstring" where
  "Number_toString big n =
     (if - 9007199254740991 \<le> n \<and> n \<le> 9007199254740991
      then (if n < 0 then 45 # decimal (nat (- n)) else decimal (nat n))
      else big n)"

text \<open>
  The text of \<open>String(1e21)\<close>, that is \<open>1e+21\<close>. The examples below take it for the
  parameter \<open>big\<close>; only the example at the year \<open>10^21\<close> reads it.
\<close>

definition exponent_text :: "int \<Rightarrow> jsstring" where
  "exponent_text n = [49, 101, 43, 50, 49]"

text \<open>\<open>s.padStart(2, "0")\<close>.\<close>

definition padStart2 :: "jsstring \<Rightarrow> jsstring" where
  "padStart2 s = replicate (2 - length s) 48 @ s"

text \<open>What \<open>toNepaliDigits\<close> does to one code unit.\<close>

definition localize_char :: "jschar \<Rightarrow> jschar" where
  "localize_char c = (if 48 \<le> c \<and> c \<le> 57 then 2358 + c else c)"

section \<open>Calendar table and converter of the shared library (core.ts)\<close>

record BSDate =
  year :: int
  month :: int
  day :: int

text \<open>
  \<open>xs[i] ?? d\<close> on an array of numbers: the element when the index is in range, the
  default when the read gives \<open>undefined\<close>.
\<close>

definition nullish_index :: "int list \<Rightarrow> int \<Rightarrow> int \<Rightarrow> int" where
  "nullish_index xs i d = (if 0 \<le> i \<and> i < int (length xs) then xs ! nat i else d)"

text \<open>
  \<open>BS_CALENDAR_DATA\<close> is declared in \<open>constants.ts\<close>, which is not among the
  sources: the table is a parameter of the functions that read it, an association list
  from a year to the month lengths of that year. \<open>calendar_ok\<close> is the contract of the
  data model: every month length in the table is a positive integer.
\<close>

type_synonym calendar_table = "(int \<times> int list) list"

definition calendar_ok :: "calendar_table \<Rightarrow> bool" where
  "calendar_ok tbl = (\<forall>(y, row) \<in> set tbl. \<forall>n \<in> set row. 1 \<le> n)"

definition defaultDays :: "int list" where
  "defaultDays = [31, 31, 32, 31, 31, 31, 30, 29, 30, 29, 30, 30]"

definition getDaysInBSMonth :: "calendar_table \<Rightarrow> int \<Rightarrow> int \<Rightarrow> int" where
  "getDaysInBSMonth tbl y m =
     (case map_of tbl y of
        Some row \<Rightarrow> nullish_index row (m - 1) 30
      | None \<Rightarrow> nullish_index defaultDays (m - 1) 30)"

definition getDaysInBSYear :: "calendar_table \<Rightarrow> int \<Rightarrow> int" where
  "getDaysInBSYear tbl y =
     (case map_of tbl y of
        Some row \<Rightarrow> fold (\<lambda>b a. a + b) row 0
      | None \<Rightarrow> 365)"

text \<open>
  Modelled from the spec: \<open>BS_REFERENCE\<close> (also in \<open>constants.ts\<close>) is the anchor
  2080-01-01 BS. Its Gregorian counterpart \<open>AD_REFERENCE\<close> is a \<open>Date\<close>; a \<open>Date\<close> is
  modelled by its time value, the integer number of milliseconds since the epoch, and
  \<open>AD_REFERENCE\<close> is a parameter of the converters. Every integer is a time value
  here: the range limit of a \<open>Date\<close> (8640000000000000 ms either side of the epoch,
  within the safe integers) and the invalid \<open>Date\<close> are not modelled.
\<close>

definition BS_REFERENCE :: BSDate where
  "BS_REFERENCE = \<lparr>year = 2080, month = 1, day = 1\<rparr>"

definition msPerDay :: int where
  "msPerDay = 1000 * 60 * 60 * 24"

text \<open>
  The forward loop of \<open>adToBS\<close> skips whole months. Nothing in the loop itself bounds
  the number of rounds, so the model returns \<open>None\<close> for a run that never ends.
\<close>

partial_function (option) adToBS_forward ::
  "calendar_table \<Rightarrow> int \<Rightarrow> int \<Rightarrow> int \<Rightarrow> int \<Rightarrow> BSDate option" where
  "adToBS_forward tbl diffDays bsYear bsMonth bsDay =
     (if diffDays > 0 then
        (let daysInMonth = getDaysInBSMonth tbl bsYear bsMonth;
             remainingDaysInMonth = daysInMonth - bsDay
         in if diffDays \<le> remainingDaysInMonth
            then adToBS_forward tbl 0 bsYear bsMonth (bsDay + diffDays)
            else if bsMonth + 1 > 12
              then adToBS_forward tbl (diffDays - (remainingDaysInMonth + 1)) (bsYear + 1) 1 1
              else adToBS_forward tbl (diffDays - (remainingDaysInMonth + 1)) bsYear (bsMonth + 1) 1)
      else Some \<lparr>year = bsYear, month = bsMonth, day = bsDay\<rparr>)"

declare adToBS_forward.simps [code]

text \<open>The backward loop of \<open>adToBS\<close> walks one day per round.\<close>

function adToBS_backward ::
  "calendar_table \<Rightarrow> int \<Rightarrow> int \<Rightarrow> int \<Rightarrow> int \<Rightarrow> BSDate" where
  "adToBS_backward tbl diffDays bsYear bsMonth bsDay =
     (if diffDays < 0 then
        (if bsDay - 1 < 1 then
           (if bsMonth - 1 < 1
            then adToBS_backward tbl (diffDays + 1) (bsYear - 1) 12
                   (getDaysInBSMonth tbl (bsYear - 1) 12)
            else adToBS_backward tbl (diffDays + 1) bsYear (bsMonth - 1)
                   (getDaysInBSMonth tbl bsYear (bsMonth - 1)))
         else adToBS_backward tbl (diffDays + 1) bsYear bsMonth (bsDay - 1))
      else \<lparr>year = bsYear, month = bsMonth, day = bsDay\<rparr>)"
  by pat_completeness auto
termination
  by (relation "measure (\<lambda>(tbl, diffDays, bsYear, bsMonth, bsDay). nat (- diffDays))") auto

declare adToBS_backward.simps [simp del]

definition adToBS :: "calendar_table \<Rightarrow> int \<Rightarrow> int \<Rightarrow> BSDate option" where
  "adToBS tbl AD_REFERENCE adDate =
     (let diffTime = adDate - AD_REFERENCE;
          diffDays = diffTime div msPerDay
      in if diffDays \<ge> 0
         then adToBS_forward tbl diffDays
                (year BS_REFERENCE) (month BS_REFERENCE) (day BS_REFERENCE)
         else Some (adToBS_backward tbl diffDays
                (year BS_REFERENCE) (month BS_REFERENCE) (day BS_REFERENCE)))"






record time_zone =
  utc_offset :: "int \<Rightarrow> int"
  local_offset :: "int \<Rightarrow> int"

definition LocalTime :: "time_zone \<Rightarrow> int \<Rightarrow> int" where
  "LocalTime Z t = t + utc_offset Z t"

definition UTC :: "time_zone \<Rightarrow> int \<Rightarrow> int" where
  "UTC Z t = t - local_offset Z t"



text \<open>
  The number of the local calendar day of a time value: two time values fall on the same
  calendar day when they have the same \<open>local_day\<close>.
\<close>

definition local_day :: "time_zone \<Rightarrow> int \<Rightarrow> int" where
  "local_day Z t = LocalTime Z t div msPerDay"

text \<open>
  Time zones for the examples. \<open>fixed_zone c\<close> has the offset \<open>c\<close> at all times.
  \<open>step_zone c T c'\<close> has the offset \<open>c\<close> before the time value \<open>T\<close> and \<open>c'\<close> from
  then on; a local time that the change skips or repeats is read with the earlier
  offset. \<open>zone_sydney_2023\<close> has the offsets of Australia/Sydney from April 2023 to
  April 2024 (ten hours until 2023-09-30T16:00:00Z, then eleven), \<open>zone_london_2023\<close>
  those of Europe/London from April 2023 to March 2024 (one hour until
  2023-10-29T01:00:00Z, then none), and \<open>zone_nepal\<close> the offset of Asia/Kathmandu
  since 1986. \<open>new Date(2023, 3, 14)\<close>, the reference midnight of the two application
  copies, is \<open>UTC Z 1681430400000\<close>.
\<close>

definition fixed_zone :: "int \<Rightarrow> time_zone" where
  "fixed_zone c = \<lparr>utc_offset = (\<lambda>t. c), local_offset = (\<lambda>t. c)\<rparr>"

definition step_zone :: "int \<Rightarrow> int \<Rightarrow> int \<Rightarrow> time_zone" where
  "step_zone c T c' =
     \<lparr>utc_offset = (\<lambda>t. if t < T then c else c'),
      local_offset = (\<lambda>t. if t < T + max c c' then c else c')\<rparr>"


definition zone_london_2023 :: time_zone where
  "zone_london_2023 = step_zone 3600000 1698541200000 0"

definition zone_nepal :: time_zone where
  "zone_nepal = fixed_zone 20700000"

section \<open>The day walk\<close>

text \<open>
  One round of the forward loop of \<open>bsToAD\<close> and one round of the two backward loops,
  as functions on dates. They are stated for any month-length function \<open>dim\<close>, so that
  they serve every copy of the converter.
\<close>

type_synonym month_length = "int \<Rightarrow> int \<Rightarrow> int"

definition next_day :: "month_length \<Rightarrow> BSDate \<Rightarrow> BSDate" where
  "next_day dim c =
     (if day c + 1 > dim (year c) (month c) then
        (if month c + 1 > 12
         then \<lparr>year = year c + 1, month = 1, day = 1\<rparr>
         else \<lparr>year = year c, month = month c + 1, day = 1\<rparr>)
      else \<lparr>year = year c, month = month c, day = day c + 1\<rparr>)"

definition prev_day :: "month_length \<Rightarrow> BSDate \<Rightarrow> BSDate" where
  "prev_day dim c =
     (if day c - 1 < 1 then
        (if month c - 1 < 1
         then \<lparr>year = year c - 1, month = 12, day = dim (year c - 1) 12\<rparr>
         else \<lparr>year = year c, month = month c - 1, day = dim (year c) (month c - 1)\<rparr>)
      else \<lparr>year = year c, month = month c, day = day c - 1\<rparr>)"

text \<open>The date \<open>n\<close> days from the anchor: forward for \<open>n \<ge> 0\<close>, backward otherwise.\<close>

definition walk :: "month_length \<Rightarrow> int \<Rightarrow> BSDate" where
  "walk dim n =
     (if n \<ge> 0 then (next_day dim ^^ nat n) BS_REFERENCE
      else (prev_day dim ^^ nat (- n)) BS_REFERENCE)"

definition valid_date :: "month_length \<Rightarrow> BSDate \<Rightarrow> bool" where
  "valid_date dim c =
     (1 \<le> month c \<and> month c \<le> 12 \<and> 1 \<le> day c \<and> day c \<le> dim (year c) (month c))"

text \<open>Every month of every year has at least one day.\<close>

definition positive_lengths :: "month_length \<Rightarrow> bool" where
  "positive_lengths dim = (\<forall>y m. 1 \<le> dim y m)"

text \<open>The lexicographic order on (year, month, day).\<close>

definition bs_less :: "BSDate \<Rightarrow> BSDate \<Rightarrow> bool" where
  "bs_less a b =
     (year a < year b \<or>
      (year a = year b \<and> (month a < month b \<or> (month a = month b \<and> day a < day b))))"

definition bs_le :: "BSDate \<Rightarrow> BSDate \<Rightarrow> bool" where
  "bs_le a b = (bs_less a b \<or> a = b)"

section \<open>The converter of the mobile application (apps/mobile/src/lib/bs-date.ts)\<close>

definition bsMonthDays :: calendar_table where
  "bsMonthDays =
     [(2080, [31, 31, 32, 31, 31, 31, 30, 29, 30, 29, 30, 30]),
      (2081, [31, 31, 32, 31, 32, 30, 30, 29, 30, 29, 30, 30]),
      (2082, [30, 32, 31, 32, 31, 30, 30, 30, 29, 30, 29, 31]),
      (2083, [31, 31, 32, 31, 31, 31, 30, 29, 30, 29, 30, 30]),
      (2084, [31, 31, 32, 31, 32, 30, 30, 29, 30, 29, 30, 30]),
      (2085, [31, 32, 31, 32, 31, 30, 30, 30, 29, 29, 30, 31])]"

text \<open>
  The reference pair of the mobile copy: \<open>refBSDate\<close>, and \<open>refADDate\<close>, which is local
  midnight of 2023-04-14 and a parameter of the converter, as in the shared library.
\<close>

definition refBSDate :: BSDate where
  "refBSDate = \<lparr>year = 2080, month = 1, day = 1\<rparr>"

text \<open>
  \<open>xs[i] || d\<close> on an array of numbers: the element when the index is in range and the
  element is not zero, the default otherwise.
\<close>

definition falsy_index :: "int list \<Rightarrow> int \<Rightarrow> int \<Rightarrow> int" where
  "falsy_index xs i d = (if 0 \<le> i \<and> i < int (length xs) \<and> xs ! nat i \<noteq> 0 then xs ! nat i else d)"

definition mobile_getDaysInBSMonth :: "int \<Rightarrow> int \<Rightarrow> int" where
  "mobile_getDaysInBSMonth y m =
     (case map_of bsMonthDays y of
        Some row \<Rightarrow> falsy_index row (m - 1) 30
      | None \<Rightarrow> falsy_index [31, 31, 32, 31, 31, 31, 30, 29, 30, 29, 30, 30] (m - 1) 30)"

lemma falsy_index_pos:
  assumes "\<forall>n \<in> set xs. 1 \<le> n" "1 \<le> d"
  shows "1 \<le> falsy_index xs i d"
  using assms by (auto simp: falsy_index_def)

lemma bsMonthDays_rows: "\<forall>(y, row) \<in> set bsMonthDays. \<forall>n \<in> set row. 1 \<le> n"
  by (simp add: bsMonthDays_def)

lemma mobile_getDaysInBSMonth_pos: "1 \<le> mobile_getDaysInBSMonth y m"
proof (cases "map_of bsMonthDays y")
  case None
  then show ?thesis
    by (simp add: mobile_getDaysInBSMonth_def falsy_index_pos)
next
  case (Some row)
  then have "(y, row) \<in> set bsMonthDays" by (rule map_of_SomeD)
  with bsMonthDays_rows have "\<forall>n \<in> set row. 1 \<le> n" by blast
  with Some show ?thesis
    by (simp add: mobile_getDaysInBSMonth_def falsy_index_pos)
qed

text \<open>
  The forward loop of the mobile \<open>adToBS\<close> takes whole months off \<open>bsDay\<close>; the
  backward loop adds whole months to it. Both end, as every month has at least one day.
\<close>

function mobile_adToBS_forward :: "int \<Rightarrow> int \<Rightarrow> int \<Rightarrow> BSDate" where
  "mobile_adToBS_forward bsYear bsMonth bsDay =
     (if bsDay > mobile_getDaysInBSMonth bsYear bsMonth then
        (if bsMonth + 1 > 12
         then mobile_adToBS_forward (bsYear + 1) 1
                (bsDay - mobile_getDaysInBSMonth bsYear bsMonth)
         else mobile_adToBS_forward bsYear (bsMonth + 1)
                (bsDay - mobile_getDaysInBSMonth bsYear bsMonth))
      else \<lparr>year = bsYear, month = bsMonth, day = bsDay\<rparr>)"
  by pat_completeness auto
termination
proof (relation "measure (\<lambda>(bsYear, bsMonth, bsDay). nat bsDay)")
  fix bsYear bsMonth bsDay :: int
  assume "mobile_getDaysInBSMonth bsYear bsMonth < bsDay"
  with mobile_getDaysInBSMonth_pos [of bsYear bsMonth]
  have "nat (bsDay - mobile_getDaysInBSMonth bsYear bsMonth) < nat bsDay" by simp
  then show "((bsYear + 1, 1, bsDay - mobile_getDaysInBSMonth bsYear bsMonth),
              bsYear, bsMonth, bsDay) \<in> measure (\<lambda>(bsYear, bsMonth, bsDay). nat bsDay)"
    and "((bsYear, bsMonth + 1, bsDay - mobile_getDaysInBSMonth bsYear bsMonth),
              bsYear, bsMonth, bsDay) \<in> measure (\<lambda>(bsYear, bsMonth, bsDay). nat bsDay)"
    by simp_all
qed simp

function mobile_adToBS_backward :: "int \<Rightarrow> int \<Rightarrow> int \<Rightarrow> BSDate" where
  "mobile_adToBS_backward bsYear bsMonth bsDay =
     (if bsDay < 1 then
        (if bsMonth - 1 < 1
         then mobile_adToBS_backward (bsYear - 1) 12
                (bsDay + mobile_getDaysInBSMonth (bsYear - 1) 12)
         else mobile_adToBS_backward bsYear (bsMonth - 1)
                (bsDay + mobile_getDaysInBSMonth bsYear (bsMonth - 1)))
      else \<lparr>year = bsYear, month = bsMonth, day = bsDay\<rparr>)"
  by pat_completeness auto
termination
proof (relation "measure (\<lambda>(bsYear, bsMonth, bsDay). nat (1 - bsDay))")
  fix bsYear bsMonth bsDay :: int
  assume d: "bsDay < 1"
  from d mobile_getDaysInBSMonth_pos [of "bsYear - 1" 12]
  show "((bsYear - 1, 12, bsDay + mobile_getDaysInBSMonth (bsYear - 1) 12),
              bsYear, bsMonth, bsDay) \<in> measure (\<lambda>(bsYear, bsMonth, bsDay). nat (1 - bsDay))"
    by simp
  from d mobile_getDaysInBSMonth_pos [of bsYear "bsMonth - 1"]
  show "((bsYear, bsMonth - 1, bsDay + mobile_getDaysInBSMonth bsYear (bsMonth - 1)),
              bsYear, bsMonth, bsDay) \<in> measure (\<lambda>(bsYear, bsMonth, bsDay). nat (1 - bsDay))"
    by simp
qed simp

declare mobile_adToBS_forward.simps [simp del]
declare mobile_adToBS_backward.simps [simp del]

definition mobile_adToBS :: "int \<Rightarrow> int \<Rightarrow> BSDate" where
  "mobile_adToBS refADDate adDate =
     (let diffTime = adDate - refADDate;
          diffDays = diffTime div msPerDay
      in if diffDays \<ge> 0
         then mobile_adToBS_forward (year refBSDate) (month refBSDate) (day refBSDate + diffDays)
         else mobile_adToBS_backward (year refBSDate) (month refBSDate) (day refBSDate + diffDays))"

section \<open>The converter of the web application (apps/web, lib/bs-date.ts)\<close>

definition web_BS_CALENDAR_DATA :: calendar_table where
  "web_BS_CALENDAR_DATA =
     [(2080, [31, 32, 31, 32, 31, 30, 30, 30, 29, 30, 29, 31]),
      (2081, [31, 31, 32, 31, 31, 31, 30, 29, 30, 29, 30, 30]),
      (2082, [31, 31, 32, 32, 31, 30, 30, 29, 30, 29, 30, 30]),
      (2083, [31, 32, 31, 32, 31, 30, 30, 30, 29, 29, 30, 31]),
      (2084, [30, 32, 31, 32, 31, 30, 30, 30, 29, 30, 29, 31]),
      (2085, [31, 31, 32, 31, 31, 31, 30, 29, 30, 29, 30, 30]),
      (2086, [31, 31, 32, 32, 31, 30, 30, 29, 30, 29, 30, 30]),
      (2087, [31, 32, 31, 32, 31, 30, 30, 30, 29, 29, 30, 31]),
      (2088, [31, 31, 31, 32, 31, 31, 29, 30, 30, 29, 29, 31]),
      (2089, [31, 31, 32, 31, 31, 31, 30, 29, 30, 29, 30, 30]),
      (2090, [31, 31, 32, 32, 31, 30, 30, 29, 30, 29, 30, 30])]"

definition web_BS_REFERENCE :: BSDate where
  "web_BS_REFERENCE = \<lparr>year = 2080, month = 1, day = 1\<rparr>"

text \<open>
  The web copy reads the table row with a bare index: outside the row the read gives
  \<open>undefined\<close>, here \<open>None\<close>. A year that is not in the table has 30 days in every
  month.
\<close>

definition web_getDaysInBSMonth :: "int \<Rightarrow> int \<Rightarrow> int option" where
  "web_getDaysInBSMonth y m =
     (case map_of web_BS_CALENDAR_DATA y of
        Some row \<Rightarrow> (if 0 \<le> m - 1 \<and> m - 1 < int (length row) then Some (row ! nat (m - 1)) else None)
      | None \<Rightarrow> Some 30)"

text \<open>
  The two loops of the web \<open>adToBS\<close> run one after the other on the same variables, so
  the forward loop hands its whole state on. \<open>None\<close> is a run that leaves the integers
  (arithmetic on \<open>undefined\<close>) or, for the forward loop, one that never ends.
\<close>

partial_function (option) web_adToBS_forward ::
  "int \<Rightarrow> int \<Rightarrow> int \<Rightarrow> int \<Rightarrow> (int \<times> int \<times> int \<times> int) option" where
  "web_adToBS_forward diffDays bsYear bsMonth bsDay =
     (if diffDays > 0 then
        (case web_getDaysInBSMonth bsYear bsMonth of
           None \<Rightarrow> None
         | Some daysInMonth \<Rightarrow>
            (let remainingDaysInMonth = daysInMonth - bsDay
             in if diffDays \<le> remainingDaysInMonth
                then web_adToBS_forward 0 bsYear bsMonth (bsDay + diffDays)
                else if bsMonth + 1 > 12
                  then web_adToBS_forward (diffDays - (remainingDaysInMonth + 1)) (bsYear + 1) 1 1
                  else web_adToBS_forward (diffDays - (remainingDaysInMonth + 1)) bsYear (bsMonth + 1) 1))
      else Some (diffDays, bsYear, bsMonth, bsDay))"

declare web_adToBS_forward.simps [code]

function web_adToBS_backward :: "int \<Rightarrow> int \<Rightarrow> int \<Rightarrow> int \<Rightarrow> BSDate option" where
  "web_adToBS_backward diffDays bsYear bsMonth bsDay =
     (if diffDays < 0 then
        (if bsDay - 1 < 1 then
           (if bsMonth - 1 < 1
            then (case web_getDaysInBSMonth (bsYear - 1) 12 of
                    None \<Rightarrow> None
                  | Some n \<Rightarrow> web_adToBS_backward (diffDays + 1) (bsYear - 1) 12 n)
            else (case web_getDaysInBSMonth bsYear (bsMonth - 1) of
                    None \<Rightarrow> None
                  | Some n \<Rightarrow> web_adToBS_backward (diffDays + 1) bsYear (bsMonth - 1) n))
         else web_adToBS_backward (diffDays + 1) bsYear bsMonth (bsDay - 1))
      else Some \<lparr>year = bsYear, month = bsMonth, day = bsDay\<rparr>)"
  by pat_completeness auto
termination
  by (relation "measure (\<lambda>(diffDays, bsYear, bsMonth, bsDay). nat (- diffDays))") auto

declare web_adToBS_backward.simps [simp del]

definition web_adToBS :: "int \<Rightarrow> int \<Rightarrow> BSDate option" where
  "web_adToBS AD_REFERENCE adDate =
     (let diffTime = adDate - AD_REFERENCE;
          diffDays = diffTime div msPerDay
      in case web_adToBS_forward diffDays
                (year web_BS_REFERENCE) (month web_BS_REFERENCE) (day web_BS_REFERENCE) of
           None \<Rightarrow> None
         | Some (diffDays', bsYear, bsMonth, bsDay) \<Rightarrow>
             web_adToBS_backward diffDays' bsYear bsMonth bsDay)"

definition web_valid :: "int \<Rightarrow> int \<Rightarrow> int \<Rightarrow> bool" where
  "web_valid y m d =
     (1 \<le> m \<and> m \<le> 12 \<and> 1 \<le> d \<and>
      (case web_getDaysInBSMonth y m of None \<Rightarrow> False | Some n \<Rightarrow> d \<le> n))"

section \<open>Formatter and relative time of the shared library (format.ts)\<close>

datatype BSDateFormat = Full | Short | Long

text \<open>
  \<open>BS_MONTHS\<close> is declared in \<open>constants.ts\<close>, which is not among the sources: the table
  of month names is a parameter. \<open>BS_MONTHS[i] ?? ""\<close> is the name at the index when the
  index is in range and the empty string otherwise.
\<close>

definition nullish_name :: "jsstring list \<Rightarrow> int \<Rightarrow> jsstring" where
  "nullish_name xs i = (if 0 \<le> i \<and> i < int (length xs) then xs ! nat i else [])"

text \<open>
  In the template literals, \<open>45\<close> is the hyphen-minus, \<open>32\<close> the space and \<open>44\<close> the
  comma.
\<close>

definition formatBSDate ::
  "(int \<Rightarrow> jsstring) \<Rightarrow> jsstring list \<Rightarrow> BSDate \<Rightarrow> BSDateFormat \<Rightarrow> jsstring" where
  "formatBSDate big BS_MONTHS bsDate format =
     (let monthName = nullish_name BS_MONTHS (month bsDate - 1)
      in case format of
           Short \<Rightarrow>
             toNepaliDigits (Number_toString big (year bsDate)) @ [45] @
             toNepaliDigits (padStart2 (Number_toString big (month bsDate))) @ [45] @
             toNepaliDigits (padStart2 (Number_toString big (day bsDate)))
         | Long \<Rightarrow>
             monthName @ [32] @ toNepaliDigits (Number_toString big (day bsDate)) @ [44, 32] @
             toNepaliDigits (Number_toString big (year bsDate))
         | Full \<Rightarrow>
             toNepaliDigits (Number_toString big (day bsDate)) @ [32] @ monthName @ [32] @
             toNepaliDigits (Number_toString big (year bsDate)))"

text \<open>
  The phrases of the relative-time functions, as UTF-16 code units:
  \<open>phrase_just_now\<close> is U+092D U+0930 U+094D U+0916 U+0930 U+0948,
  \<open>phrase_yesterday\<close> is U+0939 U+093F U+091C U+094B,
  \<open>phrase_last_week\<close> is U+0917 U+0924, a space, U+0939 U+092A U+094D U+0924 U+093E,
  \<open>phrase_last_month\<close> is U+0917 U+0924, a space, U+092E U+0939 U+093F U+0928 U+093E,
  and every \<open>suffix\<close> is a space, the unit (minute, hour, day, week, month), a space and
  the word U+0905 U+0918 U+093F ("ago").
\<close>

definition phrase_just_now :: jsstring where
  "phrase_just_now = [2349, 2352, 2381, 2326, 2352, 2376]"

definition suffix_minutes_ago :: jsstring where
  "suffix_minutes_ago = [32, 2350, 2367, 2344, 2375, 2335, 32, 2309, 2328, 2367]"

definition suffix_hours_ago :: jsstring where
  "suffix_hours_ago = [32, 2328, 2339, 2381, 2335, 2366, 32, 2309, 2328, 2367]"

definition phrase_yesterday :: jsstring where
  "phrase_yesterday = [2361, 2367, 2332, 2379]"

definition suffix_days_ago :: jsstring where
  "suffix_days_ago = [32, 2342, 2367, 2344, 32, 2309, 2328, 2367]"

definition phrase_last_week :: jsstring where
  "phrase_last_week = [2327, 2340, 32, 2361, 2346, 2381, 2340, 2366]"

definition suffix_weeks_ago :: jsstring where
  "suffix_weeks_ago = [32, 2361, 2346, 2381, 2340, 2366, 32, 2309, 2328, 2367]"

definition phrase_last_month :: jsstring where
  "phrase_last_month = [2327, 2340, 32, 2350, 2361, 2367, 2344, 2366]"

definition suffix_months_ago :: jsstring where
  "suffix_months_ago = [32, 2350, 2361, 2367, 2344, 2366, 32, 2309, 2328, 2367]"

text \<open>
  \<open>getRelativeTimeNepali\<close> reads the clock with \<open>new Date()\<close>; the model takes the time
  value \<open>now\<close> as an argument, and the time value of the parsed \<open>dateString\<close> as \<open>date\<close>.
  The result is optional only because that of \<open>adToBS\<close> is.
\<close>

definition getRelativeTimeNepali ::
  "calendar_table \<Rightarrow> int \<Rightarrow> (int \<Rightarrow> jsstring) \<Rightarrow> jsstring list \<Rightarrow> int \<Rightarrow> int \<Rightarrow>
   jsstring option" where
  "getRelativeTimeNepali tbl AD_REFERENCE big BS_MONTHS now date =
     (let diffMs = now - date
      in if diffMs < 0
         then map_option (\<lambda>bs. formatBSDate big BS_MONTHS bs Full) (adToBS tbl AD_REFERENCE date)
         else
           (let diffSecs = diffMs div 1000;
                diffMins = diffSecs div 60;
                diffHours = diffMins div 60;
                diffDays = diffHours div 24;
                diffWeeks = diffDays div 7;
                diffMonths = diffDays div 30
            in if diffSecs < 60 then Some phrase_just_now
               else if diffMins < 60
                 then Some (toNepaliDigits (Number_toString big diffMins) @ suffix_minutes_ago)
               else if diffHours < 24
                 then Some (toNepaliDigits (Number_toString big diffHours) @ suffix_hours_ago)
               else if diffDays = 1 then Some phrase_yesterday
               else if diffDays < 7
                 then Some (toNepaliDigits (Number_toString big diffDays) @ suffix_days_ago)
               else if diffWeeks = 1 then Some phrase_last_week
               else if diffWeeks < 4
                 then Some (toNepaliDigits (Number_toString big diffWeeks) @ suffix_weeks_ago)
               else if diffMonths = 1 then Some phrase_last_month
               else if diffMonths < 12
                 then Some (toNepaliDigits (Number_toString big diffMonths) @ suffix_months_ago)
               else map_option (\<lambda>bs. formatBSDate big BS_MONTHS bs Full)
                      (adToBS tbl AD_REFERENCE date)))"

section \<open>Formatter and relative time of the web application\<close>

text \<open>
  The web and the mobile copy carry their own \<open>toNepaliDigits\<close>, with the text of the
  shared one and the same glyph table; the model uses \<open>toNepaliDigits\<close> for all three.
  \<open>template_index\<close> is an array read inside a template literal: the element, or the
  text \<open>undefined\<close> when the index is out of range.
\<close>

definition template_index :: "jsstring list \<Rightarrow> int \<Rightarrow> jsstring" where
  "template_index xs i =
     (if 0 \<le> i \<and> i < int (length xs) then xs ! nat i
      else [117, 110, 100, 101, 102, 105, 110, 101, 100])"

definition web_BS_MONTHS :: "jsstring list" where
  "web_BS_MONTHS =
     [[2348, 2376, 2358, 2366, 2326],
      [2332, 2375, 2336],
      [2309, 2360, 2366, 2352],
      [2358, 2381, 2352, 2366, 2357, 2339],
      [2349, 2342, 2380],
      [2309, 2360, 2379, 2332],
      [2325, 2366, 2352, 2381, 2340, 2367, 2325],
      [2350, 2306, 2360, 2367, 2352],
      [2346, 2369, 2359],
      [2350, 2366, 2328],
      [2347, 2366, 2327, 2369, 2344],
      [2330, 2376, 2340, 2381, 2352]]"

datatype web_format = WebFull | WebShort

definition web_formatBSDate :: "(int \<Rightarrow> jsstring) \<Rightarrow> BSDate \<Rightarrow> web_format \<Rightarrow> jsstring" where
  "web_formatBSDate big bsDate format =
     (if format = WebShort
      then toNepaliDigits (Number_toString big (year bsDate)) @ [45] @
           toNepaliDigits (padStart2 (Number_toString big (month bsDate))) @ [45] @
           toNepaliDigits (padStart2 (Number_toString big (day bsDate)))
      else toNepaliDigits (Number_toString big (day bsDate)) @ [32] @
           template_index web_BS_MONTHS (month bsDate - 1) @ [44, 32] @
           toNepaliDigits (Number_toString big (year bsDate)))"

definition web_getRelativeTimeNepali ::
  "int \<Rightarrow> (int \<Rightarrow> jsstring) \<Rightarrow> int \<Rightarrow> int \<Rightarrow> jsstring option" where
  "web_getRelativeTimeNepali AD_REFERENCE big now date =
     (let diffMs = now - date;
          diffMins = diffMs div (1000 * 60);
          diffHours = diffMs div (1000 * 60 * 60);
          diffDays = diffMs div (1000 * 60 * 60 * 24)
      in if diffMins < 1 then Some phrase_just_now
         else if diffMins < 60
           then Some (toNepaliDigits (Number_toString big diffMins) @ suffix_minutes_ago)
         else if diffHours < 24
           then Some (toNepaliDigits (Number_toString big diffHours) @ suffix_hours_ago)
         else if diffDays < 7
           then Some (toNepaliDigits (Number_toString big diffDays) @ suffix_days_ago)
         else map_option (\<lambda>bs. web_formatBSDate big bs WebFull) (web_adToBS AD_REFERENCE date))"

section \<open>Formatter and relative time of the mobile application\<close>

definition nepaliMonths :: "jsstring list" where
  "nepaliMonths =
     [[2348, 2376, 2358, 2366, 2326],
      [2332, 2375, 2336],
      [2309, 2360, 2366, 2352],
      [2360, 2366, 2313, 2344],
      [2349, 2342, 2380],
      [2309, 2360, 2379, 2332],
      [2325, 2366, 2352, 2381, 2340, 2367, 2325],
      [2350, 2306, 2360, 2367, 2352],
      [2346, 2369, 2359],
      [2350, 2366, 2328],
      [2347, 2366, 2327, 2369, 2344],
      [2330, 2376, 2340]]"

definition mobile_formatBSDate :: "(int \<Rightarrow> jsstring) \<Rightarrow> BSDate \<Rightarrow> jsstring" where
  "mobile_formatBSDate big bsDate =
     toNepaliDigits (Number_toString big (day bsDate)) @ [32] @
     template_index nepaliMonths (month bsDate - 1) @ [32] @
     toNepaliDigits (Number_toString big (year bsDate))"

text \<open>\<open>mobile_phrase_now\<close> is U+0905 U+0939 U+093F U+0932 U+0947.\<close>

definition mobile_phrase_now :: jsstring where
  "mobile_phrase_now = [2309, 2361, 2367, 2354, 2375]"

definition formatRelativeTime :: "int \<Rightarrow> (int \<Rightarrow> jsstring) \<Rightarrow> int \<Rightarrow> int \<Rightarrow> jsstring" where
  "formatRelativeTime refADDate big now date =
     (let diffMs = now - date;
          diffMins = diffMs div (1000 * 60);
          diffHours = diffMs div (1000 * 60 * 60);
          diffDays = diffMs div (1000 * 60 * 60 * 24)
      in if diffMins < 1 then mobile_phrase_now
         else if diffMins < 60
           then toNepaliDigits (Number_toString big diffMins) @ suffix_minutes_ago
         else if diffHours < 24
           then toNepaliDigits (Number_toString big diffHours) @ suffix_hours_ago
         else if diffDays < 7
           then toNepaliDigits (Number_toString big diffDays) @ suffix_days_ago
         else mobile_formatBSDate big (mobile_adToBS refADDate date))"

section \<open>Reading a short-style date back\<close>

text \<open>
  The reading that the specification describes for the short style: split the string on
  the separator, reverse the digit localization, and read the three fields as decimal
  numerals. It is written from the words of the specification; the sources have no
  parser.
\<close>

fun split_on :: "jschar \<Rightarrow> jsstring \<Rightarrow> jsstring list" where
  "split_on sep [] = [[]]"
| "split_on sep (c # cs) =
     (if c = sep then [] # split_on sep cs
      else (case split_on sep cs of
              [] \<Rightarrow> [[c]]
            | p # ps \<Rightarrow> (c # p) # ps))"

definition delocalize_char :: "jschar \<Rightarrow> jschar" where
  "delocalize_char c = (if 2406 \<le> c \<and> c \<le> 2415 then c - 2358 else c)"

definition fromNepaliDigits :: "jsstring \<Rightarrow> jsstring" where
  "fromNepaliDigits s = map delocalize_char s"

definition read_decimal :: "jsstring \<Rightarrow> int option" where
  "read_decimal s =
     (if s \<noteq> [] \<and> list_all (\<lambda>c. 48 \<le> c \<and> c \<le> 57) s
      then Some (int (foldl (\<lambda>a c. 10 * a + (c - 48)) 0 s))
      else None)"

definition parseShort :: "jsstring \<Rightarrow> BSDate option" where
  "parseShort s =
     (case map (\<lambda>field. read_decimal (fromNepaliDigits field)) (split_on 45 s) of
        [Some y, Some m, Some d] \<Rightarrow> Some \<lparr>year = y, month = m, day = d\<rparr>
      | _ \<Rightarrow> None)"

section \<open>The digit localizer is a character-wise map\<close>

lemma NEPALI_DIGITS_nth:
  assumes "d < 10"
  shows "NEPALI_DIGITS ! d = [2406 + d]"
proof -
  from assms have "d \<in> {0, 1, 2, 3, 4, 5, 6, 7, 8, 9}" by auto
  then show ?thesis by (auto simp: NEPALI_DIGITS_def)
qed

lemma glyph_of_char:
  "(case parseInt10 c of None \<Rightarrow> [c] | Some digit \<Rightarrow> NEPALI_DIGITS ! digit) = [localize_char c]"
proof (cases "48 \<le> c \<and> c \<le> 57")
  case True
  then have "c - 48 < 10" by arith
  with True show ?thesis
    by (simp add: parseInt10_def localize_char_def NEPALI_DIGITS_nth)
next
  case False
  then show ?thesis by (auto simp: parseInt10_def localize_char_def)
qed

lemma toNepaliDigits_map: "toNepaliDigits s = map localize_char s"
  unfolding toNepaliDigits_def glyph_of_char by (induction s) simp_all

text \<open>
  C9. For every string \<open>s\<close>, \<open>toNepaliDigits s\<close> has the length of \<open>s\<close>; at every
  position that holds an ASCII digit it holds the glyph of \<open>NEPALI_DIGITS\<close> with that
  digit's index, and at every other position it holds the character of \<open>s\<close> itself.
  The function is a total HOL function: it has a value on every input.
\<close>

theorem toNepaliDigits_correct:
  "length (toNepaliDigits s) = length s \<and>
   (\<forall>i < length s.
      (48 \<le> s ! i \<and> s ! i \<le> 57 \<longrightarrow> [toNepaliDigits s ! i] = NEPALI_DIGITS ! (s ! i - 48)) \<and>
      (\<not> (48 \<le> s ! i \<and> s ! i \<le> 57) \<longrightarrow> toNepaliDigits s ! i = s ! i))"
proof -
  have "[localize_char c] = NEPALI_DIGITS ! (c - 48)" if "48 \<le> c" "c \<le> 57" for c
  proof -
    from that have "c - 48 < 10" by arith
    with that show ?thesis by (simp add: NEPALI_DIGITS_nth localize_char_def)
  qed
  then show ?thesis
    by (simp add: toNepaliDigits_map localize_char_def)
qed

theorem toNepaliDigits_correct_witness:
  "toNepaliDigits [50, 48, 56, 50, 45, 97] = [2408, 2406, 2414, 2408, 45, 97] \<and>
   length (toNepaliDigits [50, 48, 56, 50, 45, 97]) = 6 \<and>
   [toNepaliDigits [50, 48, 56, 50, 45, 97] ! 2] = NEPALI_DIGITS ! 8 \<and>
   toNepaliDigits [50, 48, 56, 50, 45, 97] ! 4 = 45"
proof -
  have ev: "toNepaliDigits [50, 48, 56, 50, 45, 97] = [2408, 2406, 2414, 2408, 45, 97]"
    by (simp add: toNepaliDigits_def parseInt10_def NEPALI_DIGITS_def)
  from toNepaliDigits_correct [of "[50, 48, 56, 50, 45, 97]"]
  have "length (toNepaliDigits [50, 48, 56, 50, 45, 97]) = 6"
    and "\<forall>i < 6. (48 \<le> [50, 48, 56, 50, 45, 97::nat] ! i \<and> [50, 48, 56, 50, 45, 97::nat] ! i \<le> 57 \<longrightarrow>
            [toNepaliDigits [50, 48, 56, 50, 45, 97] ! i] = NEPALI_DIGITS ! ([50, 48, 56, 50, 45, 97] ! i - 48)) \<and>
          (\<not> (48 \<le> [50, 48, 56, 50, 45, 97::nat] ! i \<and> [50, 48, 56, 50, 45, 97::nat] ! i \<le> 57) \<longrightarrow>
            toNepaliDigits [50, 48, 56, 50, 45, 97] ! i = [50, 48, 56, 50, 45, 97] ! i)"
    by simp_all
  then have "[toNepaliDigits [50, 48, 56, 50, 45, 97] ! 2] = NEPALI_DIGITS ! 8"
    and "toNepaliDigits [50, 48, 56, 50, 45, 97] ! 4 = 45"
    by (simp_all add: ev NEPALI_DIGITS_def)
  with ev show ?thesis by simp
qed

section \<open>Properties of the day walk\<close>

lemma positive_lengthsD: "positive_lengths dim \<Longrightarrow> 1 \<le> dim y m"
  by (simp add: positive_lengths_def)

lemma BSDate_eta [simp]: "\<lparr>year = year c, month = month c, day = day c\<rparr> = (c::BSDate)"
  by (cases c) simp

lemma BSDate_eqI: "year a = year b \<Longrightarrow> month a = month b \<Longrightarrow> day a = day b \<Longrightarrow> (a::BSDate) = b"
  by simp

lemma next_day_valid:
  assumes "positive_lengths dim" "valid_date dim c"
  shows "valid_date dim (next_day dim c)"
  using assms(2) positive_lengthsD [OF assms(1)] by (auto simp: valid_date_def next_day_def)

lemma prev_day_valid:
  assumes "positive_lengths dim" "valid_date dim c"
  shows "valid_date dim (prev_day dim c)"
  using assms(2) positive_lengthsD [OF assms(1)] by (auto simp: valid_date_def prev_day_def)

lemma prev_next_day:
  assumes "valid_date dim c"
  shows "prev_day dim (next_day dim c) = c"
  using assms by (auto simp: valid_date_def prev_day_def next_day_def)

lemma next_prev_day:
  assumes "positive_lengths dim" "valid_date dim c"
  shows "next_day dim (prev_day dim c) = c"
proof -
  have "\<not> dim y m + 1 \<le> dim y m" for y m by simp
  with assms(2) show ?thesis
    by (auto simp: valid_date_def prev_day_def next_day_def not_less)
qed

lemma bs_less_next_day:
  assumes "valid_date dim c"
  shows "bs_less c (next_day dim c)"
  using assms by (auto simp: valid_date_def next_day_def bs_less_def)


lemma bs_less_trans: "bs_less a b \<Longrightarrow> bs_less b c \<Longrightarrow> bs_less a c"
  by (auto simp: bs_less_def)

lemma bs_less_irrefl: "\<not> bs_less a a"
  by (simp add: bs_less_def)


lemma funpow_next_valid:
  assumes "positive_lengths dim" "valid_date dim c"
  shows "valid_date dim ((next_day dim ^^ k) c)"
  by (induction k) (simp_all add: assms next_day_valid)

lemma funpow_prev_valid:
  assumes "positive_lengths dim" "valid_date dim c"
  shows "valid_date dim ((prev_day dim ^^ k) c)"
  by (induction k) (simp_all add: assms prev_day_valid)

lemma bs_less_funpow_next:
  assumes "positive_lengths dim" "valid_date dim c"
  shows "bs_less c ((next_day dim ^^ Suc k) c)"
proof (induction k)
  case 0
  show ?case using assms(2) by (simp add: bs_less_next_day)
next
  case (Suc k)
  have "bs_less ((next_day dim ^^ Suc k) c) (next_day dim ((next_day dim ^^ Suc k) c))"
    by (rule bs_less_next_day) (rule funpow_next_valid [OF assms])
  with Suc show ?case by (auto intro: bs_less_trans)
qed


lemma BS_REFERENCE_valid:
  assumes "positive_lengths dim"
  shows "valid_date dim BS_REFERENCE"
  using positive_lengthsD [OF assms, of 2080 1] by (simp add: valid_date_def BS_REFERENCE_def)

lemma walk_valid:
  assumes "positive_lengths dim"
  shows "valid_date dim (walk dim n)"
  unfolding walk_def
  by (simp add: funpow_next_valid funpow_prev_valid BS_REFERENCE_valid assms)

lemma walk_succ:
  assumes "positive_lengths dim"
  shows "walk dim (n + 1) = next_day dim (walk dim n)"
proof (cases "0 \<le> n")
  case True
  then have "nat (n + 1) = Suc (nat n)" by simp
  with True show ?thesis by (simp add: walk_def)
next
  case False
  define k where "k = nat (- (n + 1))"
  from False have k: "nat (- n) = Suc k" "nat (- (n + 1)) = k"
    unfolding k_def by arith+
  have v: "valid_date dim ((prev_day dim ^^ k) BS_REFERENCE)"
    by (rule funpow_prev_valid [OF assms BS_REFERENCE_valid [OF assms]])
  show ?thesis
  proof (cases "n + 1 = 0")
    case True
    with k show ?thesis
      using next_prev_day [OF assms v] by (simp add: walk_def)
  next
    case False
    with \<open>\<not> 0 \<le> n\<close> have "\<not> 0 \<le> n + 1" by simp
    with k \<open>\<not> 0 \<le> n\<close> show ?thesis
      using next_prev_day [OF assms v] by (simp add: walk_def)
  qed
qed

lemma walk_add:
  assumes "positive_lengths dim"
  shows "walk dim (n + int k) = (next_day dim ^^ k) (walk dim n)"
proof (induction k)
  case 0
  show ?case by simp
next
  case (Suc k)
  have "n + int (Suc k) = (n + int k) + 1" by simp
  then have "walk dim (n + int (Suc k)) = walk dim ((n + int k) + 1)" by (rule arg_cong)
  also have "\<dots> = next_day dim (walk dim (n + int k))" by (rule walk_succ [OF assms])
  finally show ?case using Suc by simp
qed

lemma walk_sub:
  assumes "positive_lengths dim"
  shows "walk dim (n - int k) = (prev_day dim ^^ k) (walk dim n)"
proof (induction k)
  case 0
  show ?case by simp
next
  case (Suc k)
  have "walk dim (n - int k) = next_day dim (walk dim (n - int (Suc k)))"
    using walk_succ [OF assms, of "n - int (Suc k)"] by simp
  then have "prev_day dim (walk dim (n - int k)) = walk dim (n - int (Suc k))"
    using prev_next_day [OF walk_valid [OF assms]] by simp
  with Suc show ?case by simp
qed

lemma walk_strict_mono:
  assumes "positive_lengths dim" "a < b"
  shows "bs_less (walk dim a) (walk dim b)"
proof -
  define k where "k = nat (b - a - 1)"
  from assms(2) have "b = a + int (Suc k)"
    unfolding k_def by simp
  then have "walk dim b = (next_day dim ^^ Suc k) (walk dim a)"
    using walk_add [OF assms(1), of a "Suc k"] by simp
  then show ?thesis
    using bs_less_funpow_next [OF assms(1) walk_valid [OF assms(1)]] by simp
qed


lemma nullish_index_pos:
  assumes "\<forall>n \<in> set xs. 1 \<le> n" "1 \<le> d"
  shows "1 \<le> nullish_index xs i d"
  using assms by (auto simp: nullish_index_def)

lemma getDaysInBSMonth_pos:
  assumes "calendar_ok tbl"
  shows "1 \<le> getDaysInBSMonth tbl y m"
proof (cases "map_of tbl y")
  case None
  have "\<forall>n \<in> set defaultDays. 1 \<le> n" by (simp add: defaultDays_def)
  with None show ?thesis
    by (simp add: getDaysInBSMonth_def nullish_index_pos)
next
  case (Some row)
  then have "(y, row) \<in> set tbl" by (rule map_of_SomeD)
  with assms have "\<forall>n \<in> set row. 1 \<le> n" by (auto simp: calendar_ok_def)
  with Some show ?thesis
    by (simp add: getDaysInBSMonth_def nullish_index_pos)
qed

lemma calendar_ok_positive_lengths:
  "calendar_ok tbl \<Longrightarrow> positive_lengths (getDaysInBSMonth tbl)"
  by (simp add: positive_lengths_def getDaysInBSMonth_pos)

lemma next_days_in_month:
  assumes "d + int k \<le> dim y m"
  shows "(next_day dim ^^ k) \<lparr>year = y, month = m, day = d\<rparr> = \<lparr>year = y, month = m, day = d + int k\<rparr>"
  using assms by (induction k) (simp_all add: next_day_def)

lemma next_days_to_next_month:
  assumes "d \<le> dim y m"
  shows "(next_day dim ^^ nat (dim y m - d + 1)) \<lparr>year = y, month = m, day = d\<rparr> =
         (if m + 1 > 12 then \<lparr>year = y + 1, month = 1, day = 1\<rparr>
          else \<lparr>year = y, month = m + 1, day = 1\<rparr>)"
proof -
  from assms have "nat (dim y m - d + 1) = Suc (nat (dim y m - d))" by simp
  moreover from assms
  have "(next_day dim ^^ nat (dim y m - d)) \<lparr>year = y, month = m, day = d\<rparr> =
        \<lparr>year = y, month = m, day = dim y m\<rparr>"
    using next_days_in_month [of d "nat (dim y m - d)" dim y m] by simp
  ultimately show ?thesis by (simp add: next_day_def)
qed

lemma adToBS_forward_walk:
  assumes pos: "positive_lengths (getDaysInBSMonth tbl)"
  shows "0 \<le> n \<Longrightarrow> valid_date (getDaysInBSMonth tbl) \<lparr>year = y, month = m, day = d\<rparr> \<Longrightarrow>
         adToBS_forward tbl n y m d =
           Some ((next_day (getDaysInBSMonth tbl) ^^ nat n) \<lparr>year = y, month = m, day = d\<rparr>)"
proof (induction "nat n" arbitrary: n y m d rule: less_induct)
  case less
  let ?dim = "getDaysInBSMonth tbl"
  from less.prems have d: "d \<le> ?dim y m" "1 \<le> m" "m \<le> 12" "1 \<le> d"
    by (simp_all add: valid_date_def)
  show ?case
  proof (cases "n > 0")
    case False
    with less.prems show ?thesis by (subst adToBS_forward.simps) simp
  next
    case pos_n: True
    show ?thesis
    proof (cases "n \<le> ?dim y m - d")
      case True
      then have "d + int (nat n) \<le> ?dim y m" using pos_n by simp
      then have "(next_day ?dim ^^ nat n) \<lparr>year = y, month = m, day = d\<rparr> =
                 \<lparr>year = y, month = m, day = d + n\<rparr>"
        using next_days_in_month [of d "nat n" ?dim y m] pos_n by simp
      moreover have "adToBS_forward tbl 0 y m (d + n) = Some \<lparr>year = y, month = m, day = d + n\<rparr>"
        by (subst adToBS_forward.simps) simp
      ultimately show ?thesis
        using True pos_n by (subst adToBS_forward.simps) (simp add: Let_def)
    next
      case False
      define n' where "n' = n - (?dim y m - d + 1)"
      define c' where "c' = (if m + 1 > 12 then \<lparr>year = y + 1, month = 1, day = 1\<rparr>
                             else \<lparr>year = y, month = m + 1, day = 1\<rparr>)"
      from False d have n': "0 \<le> n'" "nat n' < nat n" "nat n = nat n' + nat (?dim y m - d + 1)"
        unfolding n'_def by simp_all
      have step: "(next_day ?dim ^^ nat (?dim y m - d + 1)) \<lparr>year = y, month = m, day = d\<rparr> = c'"
        unfolding c'_def by (rule next_days_to_next_month) (rule d)
      have v': "valid_date ?dim c'"
        using d positive_lengthsD [OF pos] by (simp add: c'_def valid_date_def)
      from v' have "valid_date ?dim \<lparr>year = year c', month = month c', day = day c'\<rparr>"
        by simp
      from less.hyps [OF n'(2) n'(1) this]
      have IH: "adToBS_forward tbl n' (year c') (month c') (day c') =
                Some ((next_day ?dim ^^ nat n') c')"
        by simp
      have "adToBS_forward tbl n y m d = adToBS_forward tbl n' (year c') (month c') (day c')"
        using False pos_n by (subst adToBS_forward.simps) (simp add: Let_def n'_def c'_def)
      also note IH
      also have "(next_day ?dim ^^ nat n') c' =
                 (next_day ?dim ^^ nat n) \<lparr>year = y, month = m, day = d\<rparr>"
        by (simp add: n'(3) funpow_add step)
      finally show ?thesis .
    qed
  qed
qed

lemma adToBS_backward_walk:
  "adToBS_backward tbl n y m d =
     (prev_day (getDaysInBSMonth tbl) ^^ nat (- n)) \<lparr>year = y, month = m, day = d\<rparr>"
proof (induction "nat (- n)" arbitrary: n y m d)
  case 0
  then have "\<not> n < 0" by simp
  with 0 show ?case by (subst adToBS_backward.simps) simp
next
  case (Suc k)
  let ?dim = "getDaysInBSMonth tbl"
  define p where "p = prev_day ?dim \<lparr>year = y, month = m, day = d\<rparr>"
  from Suc.hyps(2) have n: "n < 0" "k = nat (- (n + 1))" by simp_all
  have "adToBS_backward tbl n y m d = adToBS_backward tbl (n + 1) (year p) (month p) (day p)"
    using n(1) by (subst adToBS_backward.simps) (simp add: p_def prev_day_def)
  also have "\<dots> = (prev_day ?dim ^^ k) \<lparr>year = year p, month = month p, day = day p\<rparr>"
    using Suc.hyps(1) [OF n(2)] n(2) by simp
  also have "\<dots> = (prev_day ?dim ^^ Suc k) \<lparr>year = y, month = m, day = d\<rparr>"
    by (simp add: funpow_swap1 p_def)
  finally show ?case using Suc.hyps(2) by simp
qed





lemma adToBS_walk:
  assumes "calendar_ok tbl"
  shows "adToBS tbl R t = Some (walk (getDaysInBSMonth tbl) ((t - R) div msPerDay))"
proof -
  let ?dim = "getDaysInBSMonth tbl"
  have pos: "positive_lengths ?dim" by (rule calendar_ok_positive_lengths [OF assms])
  have "valid_date ?dim \<lparr>year = 2080, month = 1, day = 1\<rparr>"
    using BS_REFERENCE_valid [OF pos] by (simp add: BS_REFERENCE_def)
  then show ?thesis
    using adToBS_forward_walk [OF pos, of "(t - R) div msPerDay" 2080 1 1]
    by (simp add: adToBS_def walk_def Let_def adToBS_backward_walk BS_REFERENCE_def)
qed









section \<open>The converters of the shared library\<close>




lemma bucket_local_day:
  assumes "(R + utc_offset Z R) mod msPerDay = 0" "utc_offset Z t = utc_offset Z R"
  shows "local_day Z t = (t - R) div msPerDay + local_day Z R"
proof -
  from assms(1) obtain q where q: "R + utc_offset Z R = q * msPerDay"
    by (auto simp: mod_eq_0_iff_dvd dvd_def mult.commute)
  have "t + utc_offset Z R = (t - R) + q * msPerDay" using q by simp
  then have "(t + utc_offset Z R) div msPerDay = (t - R) div msPerDay + q"
    by (simp add: msPerDay_def)
  moreover have "(R + utc_offset Z R) div msPerDay = q"
    unfolding q by (simp add: msPerDay_def)
  ultimately show ?thesis by (simp add: local_day_def LocalTime_def assms(2))
qed






section \<open>The mobile converter is the day walk\<close>

lemma mobile_positive_lengths: "positive_lengths mobile_getDaysInBSMonth"
  by (simp add: positive_lengths_def mobile_getDaysInBSMonth_pos)

lemma mobile_adToBS_forward_walk:
  "1 \<le> d \<Longrightarrow> mobile_adToBS_forward y m d =
     (next_day mobile_getDaysInBSMonth ^^ nat (d - 1)) \<lparr>year = y, month = m, day = 1\<rparr>"
proof (induction "nat d" arbitrary: y m d rule: less_induct)
  case less
  let ?dim = mobile_getDaysInBSMonth
  note p = mobile_getDaysInBSMonth_pos [of y m]
  show ?case
  proof (cases "d > ?dim y m")
    case False
    then have "1 + int (nat (d - 1)) \<le> ?dim y m" using less.prems by simp
    with next_days_in_month [of 1 "nat (d - 1)" ?dim y m] less.prems False show ?thesis
      by (subst mobile_adToBS_forward.simps) simp
  next
    case True
    define c' where "c' = (if m + 1 > 12 then \<lparr>year = y + 1, month = 1, day = 1\<rparr>
                           else \<lparr>year = y, month = m + 1, day = 1\<rparr>)"
    have step: "(next_day ?dim ^^ nat (?dim y m)) \<lparr>year = y, month = m, day = 1\<rparr> = c'"
      using next_days_to_next_month [of 1 ?dim y m] p by (simp add: c'_def)
    from True p have d': "1 \<le> d - ?dim y m" "nat (d - ?dim y m) < nat d"
      "nat (d - 1) = nat (d - ?dim y m - 1) + nat (?dim y m)"
      by simp_all
    have "mobile_adToBS_forward y m d = mobile_adToBS_forward (year c') (month c') (d - ?dim y m)"
      using True by (subst mobile_adToBS_forward.simps) (simp add: c'_def)
    also have "\<dots> = (next_day ?dim ^^ nat (d - ?dim y m - 1))
                       \<lparr>year = year c', month = month c', day = 1\<rparr>"
      by (rule less.hyps [OF d'(2) d'(1)])
    also have "\<lparr>year = year c', month = month c', day = 1\<rparr> = c'" by (simp add: c'_def)
    finally show ?thesis by (simp add: d'(3) funpow_add step)
  qed
qed

lemma prev_days_in_month:
  assumes "1 \<le> d - int k"
  shows "(prev_day dim ^^ k) \<lparr>year = y, month = m, day = d\<rparr> = \<lparr>year = y, month = m, day = d - int k\<rparr>"
  using assms by (induction k) (simp_all add: prev_day_def)

lemma mobile_adToBS_backward_walk:
  "d \<le> 1 \<Longrightarrow> mobile_adToBS_backward y m d =
     (prev_day mobile_getDaysInBSMonth ^^ nat (1 - d)) \<lparr>year = y, month = m, day = 1\<rparr>"
proof (induction "nat (1 - d)" arbitrary: y m d rule: less_induct)
  case less
  let ?dim = mobile_getDaysInBSMonth
  show ?case
  proof (cases "d < 1")
    case False
    with less.prems show ?thesis
      by (subst mobile_adToBS_backward.simps) simp
  next
    case True
    define y' where "y' = (if m - 1 < 1 then y - 1 else y)"
    define m' where "m' = (if m - 1 < 1 then 12 else m - 1)"
    note p = mobile_getDaysInBSMonth_pos [of y' m']
    have step: "prev_day ?dim \<lparr>year = y, month = m, day = 1\<rparr> =
                \<lparr>year = y', month = m', day = ?dim y' m'\<rparr>"
      by (simp add: prev_day_def y'_def m'_def)
    have call: "mobile_adToBS_backward y m d = mobile_adToBS_backward y' m' (d + ?dim y' m')"
      using True by (subst mobile_adToBS_backward.simps) (simp add: y'_def m'_def)
    from True have n: "nat (1 - d) = Suc (nat (- d))" by simp
    show ?thesis
    proof (cases "d + ?dim y' m' \<le> 1")
      case False
      then have "1 \<le> ?dim y' m' - int (nat (- d))" using True by simp
      with prev_days_in_month [of "?dim y' m'" "nat (- d)" ?dim y' m'] True False show ?thesis
        unfolding call n
        by (subst mobile_adToBS_backward.simps) (simp add: funpow_swap1 step)
    next
      case le: True
      from True p have k: "nat (1 - (d + ?dim y' m')) < nat (1 - d)"
        "nat (- d) = nat (1 - (d + ?dim y' m')) + nat (?dim y' m' - 1)"
        using le by simp_all
      have "1 \<le> ?dim y' m' - int (nat (?dim y' m' - 1))" using p by simp
      with prev_days_in_month [of "?dim y' m'" "nat (?dim y' m' - 1)" ?dim y' m'] p
      have ret: "(prev_day ?dim ^^ nat (?dim y' m' - 1)) \<lparr>year = y', month = m', day = ?dim y' m'\<rparr> =
                  \<lparr>year = y', month = m', day = 1\<rparr>"
        by simp
      show ?thesis
        unfolding call n less.hyps [OF k(1) le]
        by (simp add: funpow_swap1 step k(2) funpow_add ret)
    qed
  qed
qed

lemma mobile_adToBS_walk:
  "mobile_adToBS R t = walk mobile_getDaysInBSMonth ((t - R) div msPerDay)"
proof (cases "0 \<le> (t - R) div msPerDay")
  case True
  then show ?thesis
    using mobile_adToBS_forward_walk [of "1 + (t - R) div msPerDay" 2080 1]
    by (simp add: mobile_adToBS_def walk_def refBSDate_def BS_REFERENCE_def)
next
  case False
  then show ?thesis
    using mobile_adToBS_backward_walk [of "1 + (t - R) div msPerDay" 2080 1]
    by (simp add: mobile_adToBS_def walk_def refBSDate_def BS_REFERENCE_def)
qed

section \<open>The web converter keeps dates well-formed\<close>

lemma web_BS_CALENDAR_DATA_rows:
  "\<forall>(y, row) \<in> set web_BS_CALENDAR_DATA. length row = 12 \<and> (\<forall>n \<in> set row. 1 \<le> n)"
  by (simp add: web_BS_CALENDAR_DATA_def)

lemma web_getDaysInBSMonth_pos:
  assumes "1 \<le> m" "m \<le> 12"
  shows "\<exists>n. web_getDaysInBSMonth y m = Some n \<and> 1 \<le> n"
proof (cases "map_of web_BS_CALENDAR_DATA y")
  case None
  then show ?thesis by (simp add: web_getDaysInBSMonth_def)
next
  case (Some row)
  then have "(y, row) \<in> set web_BS_CALENDAR_DATA" by (rule map_of_SomeD)
  with web_BS_CALENDAR_DATA_rows have row: "length row = 12" "\<forall>n \<in> set row. 1 \<le> n"
    by blast+
  from row(1) assms have "nat (m - 1) < length row" by simp
  then have "row ! nat (m - 1) \<in> set row" by (rule nth_mem)
  with row(2) have "1 \<le> row ! nat (m - 1)" by blast
  with Some row(1) assms show ?thesis by (simp add: web_getDaysInBSMonth_def)
qed

lemma web_adToBS_forward_valid:
  "0 \<le> n \<Longrightarrow> web_valid y m d \<Longrightarrow>
   \<exists>y' m' d'. web_adToBS_forward n y m d = Some (0, y', m', d') \<and> web_valid y' m' d'"
proof (induction "nat n" arbitrary: n y m d rule: less_induct)
  case less
  from less.prems(2) obtain k where k: "web_getDaysInBSMonth y m = Some k" "d \<le> k"
    and m: "1 \<le> m" "m \<le> 12" and d: "1 \<le> d"
    by (auto simp: web_valid_def split: option.splits)
  show ?case
  proof (cases "n > 0")
    case False
    with less.prems show ?thesis by (subst web_adToBS_forward.simps) simp
  next
    case pos_n: True
    show ?thesis
    proof (cases "n \<le> k - d")
      case True
      have "web_adToBS_forward 0 y m (d + n) = Some (0, y, m, d + n)"
        by (subst web_adToBS_forward.simps) simp
      moreover have "web_valid y m (d + n)"
        using True k m d pos_n by (simp add: web_valid_def)
      ultimately show ?thesis
        using True pos_n k by (subst web_adToBS_forward.simps) (simp add: Let_def)
    next
      case False
      define n' where "n' = n - (k - d + 1)"
      define y' where "y' = (if m + 1 > 12 then y + 1 else y)"
      define m' where "m' = (if m + 1 > 12 then 1 else m + 1)"
      from False k have n': "0 \<le> n'" "nat n' < nat n"
        unfolding n'_def by simp_all
      have "1 \<le> m'" "m' \<le> 12" using m by (simp_all add: m'_def)
      from web_getDaysInBSMonth_pos [OF this, of y']
      have v': "web_valid y' m' 1"
        using \<open>1 \<le> m'\<close> \<open>m' \<le> 12\<close> by (auto simp: web_valid_def)
      have "web_adToBS_forward n y m d = web_adToBS_forward n' y' m' 1"
        using False pos_n k
        by (subst web_adToBS_forward.simps) (simp add: Let_def n'_def y'_def m'_def)
      with less.hyps [OF n'(2) n'(1) v'] show ?thesis by simp
    qed
  qed
qed

lemma web_adToBS_backward_valid:
  "web_valid y m d \<Longrightarrow>
   \<exists>c. web_adToBS_backward n y m d = Some c \<and> web_valid (year c) (month c) (day c)"
proof (induction "nat (- n)" arbitrary: n y m d)
  case 0
  then have "\<not> n < 0" by simp
  with 0 show ?case by (subst web_adToBS_backward.simps) simp
next
  case (Suc j)
  from Suc.hyps(2) have n: "n < 0" "j = nat (- (n + 1))" by simp_all
  from Suc.prems have m: "1 \<le> m" "m \<le> 12" and d: "1 \<le> d"
    by (simp_all add: web_valid_def)
  define y' where "y' = (if m - 1 < 1 then y - 1 else y)"
  define m' where "m' = (if m - 1 < 1 then 12 else m - 1)"
  have m': "1 \<le> m'" "m' \<le> 12" using m by (simp_all add: m'_def)
  from web_getDaysInBSMonth_pos [OF this, of y']
  obtain k where k: "web_getDaysInBSMonth y' m' = Some k" "1 \<le> k" by blast
  show ?case
  proof (cases "d - 1 < 1")
    case True
    have "web_valid y' m' k" using k m' by (simp add: web_valid_def)
    from Suc.hyps(1) [OF n(2) this]
    obtain c where "web_adToBS_backward (n + 1) y' m' k = Some c"
      "web_valid (year c) (month c) (day c)" by blast
    moreover have "web_adToBS_backward n y m d = web_adToBS_backward (n + 1) y' m' k"
      using n(1) True k
      by (subst web_adToBS_backward.simps) (auto simp: y'_def m'_def)
    ultimately show ?thesis by simp
  next
    case False
    have "web_valid y m (d - 1)"
      using False Suc.prems by (auto simp: web_valid_def split: option.splits)
    from Suc.hyps(1) [OF n(2) this]
    obtain c where "web_adToBS_backward (n + 1) y m (d - 1) = Some c"
      "web_valid (year c) (month c) (day c)" by blast
    moreover have "web_adToBS_backward n y m d = web_adToBS_backward (n + 1) y m (d - 1)"
      using n(1) False by (subst web_adToBS_backward.simps) simp
    ultimately show ?thesis by simp
  qed
qed

lemma web_adToBS_valid:
  "\<exists>c. web_adToBS R t = Some c \<and> web_valid (year c) (month c) (day c)"
proof -
  define n where "n = (t - R) div msPerDay"
  have v: "web_valid 2080 1 1"
    by (simp add: web_valid_def web_getDaysInBSMonth_def web_BS_CALENDAR_DATA_def)
  show ?thesis
  proof (cases "0 \<le> n")
    case True
    from web_adToBS_forward_valid [OF True v]
    obtain y' m' d' where f: "web_adToBS_forward n 2080 1 1 = Some (0, y', m', d')"
      "web_valid y' m' d'" by blast
    have "web_adToBS_backward 0 y' m' d' = Some \<lparr>year = y', month = m', day = d'\<rparr>"
      by (subst web_adToBS_backward.simps) simp
    with f show ?thesis
      by (simp add: web_adToBS_def web_BS_REFERENCE_def n_def [symmetric])
  next
    case False
    then have "web_adToBS_forward n 2080 1 1 = Some (n, 2080, 1, 1)"
      by (subst web_adToBS_forward.simps) simp
    with web_adToBS_backward_valid [OF v, of n] show ?thesis
      by (simp add: web_adToBS_def web_BS_REFERENCE_def n_def [symmetric])
  qed
qed

section \<open>Order and well-formedness of converted dates\<close>

lemma walk_mono:
  assumes "positive_lengths dim" "i \<le> j"
  shows "bs_le (walk dim i) (walk dim j)"
proof (cases "i = j")
  case True
  then show ?thesis by (simp add: bs_le_def)
next
  case False
  with assms(2) have "i < j" by simp
  from walk_strict_mono [OF assms(1) this] show ?thesis by (simp add: bs_le_def)
qed

lemma walk_inj:
  assumes "positive_lengths dim" "walk dim i = walk dim j"
  shows "i = j"
proof (rule ccontr)
  assume "i \<noteq> j"
  then consider "i < j" | "j < i" by arith
  then show False
  proof cases
    case 1
    from walk_strict_mono [OF assms(1) this] assms(2) show False
      by (simp add: bs_less_irrefl)
  next
    case 2
    from walk_strict_mono [OF assms(1) this] assms(2) show False
      by (simp add: bs_less_irrefl)
  qed
qed

lemma diffDays_mono: "a < b \<Longrightarrow> (a - R) div msPerDay \<le> (b - R) div msPerDay"
  by (rule zdiv_mono1) (simp_all add: msPerDay_def)

lemma same_bucket_same_day:
  assumes "(R + utc_offset Z R) mod msPerDay = 0 \<and> utc_offset Z a = utc_offset Z R \<and>
      utc_offset Z b = utc_offset Z R"
    and "(a - R) div msPerDay = (b - R) div msPerDay"
  shows "local_day Z a = local_day Z b"
proof -
  from assms(1) have "local_day Z a = (a - R) div msPerDay + local_day Z R"
    by (intro bucket_local_day) simp_all
  moreover from assms(1) have "local_day Z b = (b - R) div msPerDay + local_day Z R"
    by (intro bucket_local_day) simp_all
  ultimately show ?thesis using assms(2) by simp
qed

text \<open>
  C2, as the claim states it: in the time zone of London the reference midnight
  \<open>new Date(2023, 3, 14)\<close> is 1681426800000, an hour before midnight UTC, because summer
  time is in force. The time values 2023-12-28T23:30:00Z and 2023-12-29T00:30:00Z lie on
  two calendar days in London (winter time), the days 19719 and 19720, and both are 259
  whole days from the reference: \<open>adToBS\<close> gives one date for both, in the shared library
  (on the table of the web copy) and in the mobile copy.
\<close>

theorem adToBS_two_days_counterexample:
  "UTC zone_london_2023 1681430400000 = 1681426800000 \<and>
   (1703806200000::int) < 1703809800000 \<and>
   local_day zone_london_2023 1703806200000 = 19719 \<and>
   local_day zone_london_2023 1703809800000 = 19720 \<and>
   adToBS web_BS_CALENDAR_DATA 1681426800000 1703806200000 =
     Some \<lparr>year = 2080, month = 9, day = 13\<rparr> \<and>
   adToBS web_BS_CALENDAR_DATA 1681426800000 1703809800000 =
     Some \<lparr>year = 2080, month = 9, day = 13\<rparr> \<and>
   mobile_adToBS 1681426800000 1703806200000 = \<lparr>year = 2080, month = 9, day = 14\<rparr> \<and>
   mobile_adToBS 1681426800000 1703809800000 = \<lparr>year = 2080, month = 9, day = 14\<rparr>"
proof -
  have r: "UTC zone_london_2023 1681430400000 = 1681426800000"
    by (simp add: UTC_def zone_london_2023_def step_zone_def)
  have lt: "(1703806200000::int) < 1703809800000" by simp
  have d1: "local_day zone_london_2023 1703806200000 = 19719"
    by (simp add: local_day_def LocalTime_def zone_london_2023_def step_zone_def msPerDay_def)
  have d2: "local_day zone_london_2023 1703809800000 = 19720"
    by (simp add: local_day_def LocalTime_def zone_london_2023_def step_zone_def msPerDay_def)
  have a1: "adToBS web_BS_CALENDAR_DATA 1681426800000 1703806200000 =
      Some \<lparr>year = 2080, month = 9, day = 13\<rparr>"
    by code_simp
  have a2: "adToBS web_BS_CALENDAR_DATA 1681426800000 1703809800000 =
      Some \<lparr>year = 2080, month = 9, day = 13\<rparr>"
    by code_simp
  have m1: "mobile_adToBS 1681426800000 1703806200000 = \<lparr>year = 2080, month = 9, day = 14\<rparr>"
    by code_simp
  have m2: "mobile_adToBS 1681426800000 1703809800000 = \<lparr>year = 2080, month = 9, day = 14\<rparr>"
    by code_simp
  show ?thesis
    by (rule conjI [OF r conjI [OF lt conjI [OF d1 conjI [OF d2 conjI [OF a1 conjI [OF a2
          conjI [OF m1 m2]]]]]]])
qed

text \<open>
  C2, amended. If the primary date \<open>a\<close> is before \<open>b\<close> then \<open>adToBS a\<close> is at most
  \<open>adToBS b\<close> in the lexicographic order of (year, month, day), and the two are equal only
  when \<open>a\<close> and \<open>b\<close> are the same number of whole days from the reference. That is the
  same local calendar day when the reference is a local midnight and the offset from UTC
  in force at \<open>a\<close> and at \<open>b\<close> is the one in force at the reference, as it always is in
  a zone with a constant offset. This holds for \<open>adToBS\<close> of the shared library, on every
  table of positive month lengths, and for \<open>adToBS\<close> of the mobile application.
\<close>

theorem adToBS_monotone:
  assumes "a < b"
  shows "(calendar_ok tbl \<longrightarrow>
           (\<exists>ca cb. adToBS tbl R a = Some ca \<and> adToBS tbl R b = Some cb \<and> bs_le ca cb \<and>
              (ca = cb \<longrightarrow> (a - R) div msPerDay = (b - R) div msPerDay \<and>
                 ((R + utc_offset Z R) mod msPerDay = 0 \<and> utc_offset Z a = utc_offset Z R \<and>
                  utc_offset Z b = utc_offset Z R \<longrightarrow> local_day Z a = local_day Z b)))) \<and>
         bs_le (mobile_adToBS R a) (mobile_adToBS R b) \<and>
         (mobile_adToBS R a = mobile_adToBS R b \<longrightarrow>
            (a - R) div msPerDay = (b - R) div msPerDay \<and>
            ((R + utc_offset Z R) mod msPerDay = 0 \<and> utc_offset Z a = utc_offset Z R \<and>
             utc_offset Z b = utc_offset Z R \<longrightarrow> local_day Z a = local_day Z b))"
proof -
  note le = diffDays_mono [OF assms, of R]
  let ?i = "(a - R) div msPerDay" and ?j = "(b - R) div msPerDay"
  let ?dim = "getDaysInBSMonth tbl"
  let ?aligned = "(R + utc_offset Z R) mod msPerDay = 0 \<and> utc_offset Z a = utc_offset Z R \<and>
      utc_offset Z b = utc_offset Z R"
  have day: "?i = ?j \<and> (?aligned \<longrightarrow> local_day Z a = local_day Z b)" if eq: "?i = ?j"
  proof (rule conjI [OF eq], rule impI)
    assume "?aligned"
    then show "local_day Z a = local_day Z b" using eq by (rule same_bucket_same_day)
  qed
  have shared: "calendar_ok tbl \<longrightarrow>
      (\<exists>ca cb. adToBS tbl R a = Some ca \<and> adToBS tbl R b = Some cb \<and> bs_le ca cb \<and>
            (ca = cb \<longrightarrow> ?i = ?j \<and> (?aligned \<longrightarrow> local_day Z a = local_day Z b)))"
  proof
    assume ok: "calendar_ok tbl"
    note pos = calendar_ok_positive_lengths [OF ok]
    have inj: "walk ?dim ?i = walk ?dim ?j \<longrightarrow>
        ?i = ?j \<and> (?aligned \<longrightarrow> local_day Z a = local_day Z b)"
    proof
      assume "walk ?dim ?i = walk ?dim ?j"
      then have "?i = ?j" by (rule walk_inj [OF pos])
      then show "?i = ?j \<and> (?aligned \<longrightarrow> local_day Z a = local_day Z b)" by (rule day)
    qed
    have "adToBS tbl R a = Some (walk ?dim ?i) \<and> adToBS tbl R b = Some (walk ?dim ?j) \<and>
          bs_le (walk ?dim ?i) (walk ?dim ?j) \<and>
          (walk ?dim ?i = walk ?dim ?j \<longrightarrow>
             ?i = ?j \<and> (?aligned \<longrightarrow> local_day Z a = local_day Z b))"
      by (rule conjI [OF adToBS_walk [OF ok] conjI [OF adToBS_walk [OF ok]
            conjI [OF walk_mono [OF pos le] inj]]])
    then show "\<exists>ca cb. adToBS tbl R a = Some ca \<and> adToBS tbl R b = Some cb \<and> bs_le ca cb \<and>
            (ca = cb \<longrightarrow> ?i = ?j \<and> (?aligned \<longrightarrow> local_day Z a = local_day Z b))"
      by (intro exI)
  qed
  have minj: "walk mobile_getDaysInBSMonth ?i = walk mobile_getDaysInBSMonth ?j \<longrightarrow>
      ?i = ?j \<and> (?aligned \<longrightarrow> local_day Z a = local_day Z b)"
  proof
    assume "walk mobile_getDaysInBSMonth ?i = walk mobile_getDaysInBSMonth ?j"
    then have "?i = ?j" by (rule walk_inj [OF mobile_positive_lengths])
    then show "?i = ?j \<and> (?aligned \<longrightarrow> local_day Z a = local_day Z b)" by (rule day)
  qed
  have mobile: "bs_le (mobile_adToBS R a) (mobile_adToBS R b) \<and>
         (mobile_adToBS R a = mobile_adToBS R b \<longrightarrow>
            ?i = ?j \<and> (?aligned \<longrightarrow> local_day Z a = local_day Z b))"
    unfolding mobile_adToBS_walk
    by (rule conjI [OF walk_mono [OF mobile_positive_lengths le] minj])
  show ?thesis by (rule conjI [OF shared mobile])
qed

theorem adToBS_monotone_witness:
  "calendar_ok [(2080, [31, 32, 31, 32, 31, 30, 30, 30, 29, 30, 29, 31])] \<and>
   (1684865700000::int) < 1687457700000 \<and>
   adToBS [(2080, [31, 32, 31, 32, 31, 30, 30, 30, 29, 30, 29, 31])] 1681409700000 1684865700000 =
     Some \<lparr>year = 2080, month = 2, day = 10\<rparr> \<and>
   adToBS [(2080, [31, 32, 31, 32, 31, 30, 30, 30, 29, 30, 29, 31])] 1681409700000 1687457700000 =
     Some \<lparr>year = 2080, month = 3, day = 8\<rparr> \<and>
   bs_le \<lparr>year = 2080, month = 2, day = 10\<rparr> \<lparr>year = 2080, month = 3, day = 8\<rparr> \<and>
   bs_le (mobile_adToBS 1681409700000 1684865700000) (mobile_adToBS 1681409700000 1687457700000) \<and>
   (1684865700000::int) < 1684952040000 \<and>
   adToBS [(2080, [31, 32, 31, 32, 31, 30, 30, 30, 29, 30, 29, 31])] 1681409700000 1684952040000 =
     Some \<lparr>year = 2080, month = 2, day = 10\<rparr> \<and>
   (1681409700000 + utc_offset zone_nepal 1681409700000) mod msPerDay = 0 \<and>
   local_day zone_nepal 1684865700000 = local_day zone_nepal 1684952040000"
proof -
  let ?T = "[(2080, [31, 32, 31, 32, 31, 30, 30, 30, 29, 30, 29, 31])]"
  let ?R = "1681409700000 :: int"
  let ?a = "1684865700000 :: int"
  let ?b = "1684952040000 :: int"
  have ok: "calendar_ok ?T" by (simp add: calendar_ok_def)
  have lt: "?a < 1687457700000" by simp
  have a: "adToBS ?T ?R ?a = Some \<lparr>year = 2080, month = 2, day = 10\<rparr>"
    by code_simp
  have b: "adToBS ?T ?R 1687457700000 = Some \<lparr>year = 2080, month = 3, day = 8\<rparr>"
    by code_simp
  note mono = adToBS_monotone [OF lt, of ?T ?R zone_nepal]
  from mono [THEN conjunct1, rule_format, OF ok] obtain ca cb where
    "adToBS ?T ?R ?a = Some ca" "adToBS ?T ?R 1687457700000 = Some cb" "bs_le ca cb"
    by blast
  with a b have s: "bs_le \<lparr>year = 2080, month = 2, day = 10\<rparr> \<lparr>year = 2080, month = 3, day = 8\<rparr>"
    by simp
  note m = mono [THEN conjunct2, THEN conjunct1]
  have lt': "?a < ?b" by simp
  have b': "adToBS ?T ?R ?b = Some \<lparr>year = 2080, month = 2, day = 10\<rparr>"
    by code_simp
  have mid: "(?R + utc_offset zone_nepal ?R) mod msPerDay = 0"
    by (simp add: zone_nepal_def fixed_zone_def msPerDay_def)
  have al: "(?R + utc_offset zone_nepal ?R) mod msPerDay = 0 \<and>
      utc_offset zone_nepal ?a = utc_offset zone_nepal ?R \<and>
      utc_offset zone_nepal ?b = utc_offset zone_nepal ?R"
    by (simp add: zone_nepal_def fixed_zone_def msPerDay_def)
  note same = adToBS_monotone [OF lt', of ?T ?R zone_nepal]
  from same [THEN conjunct1, rule_format, OF ok] obtain da db where d:
    "adToBS ?T ?R ?a = Some da" "adToBS ?T ?R ?b = Some db"
    "da = db \<longrightarrow> (?a - ?R) div msPerDay = (?b - ?R) div msPerDay \<and>
       ((?R + utc_offset zone_nepal ?R) mod msPerDay = 0 \<and>
        utc_offset zone_nepal ?a = utc_offset zone_nepal ?R \<and>
        utc_offset zone_nepal ?b = utc_offset zone_nepal ?R \<longrightarrow>
          local_day zone_nepal ?a = local_day zone_nepal ?b)"
    by blast
  from d(1,2) a b' have eq: "da = db" by simp
  note d(3) [THEN mp, OF eq, THEN conjunct2]
  from this al have day: "local_day zone_nepal ?a = local_day zone_nepal ?b" by (rule mp)
  show ?thesis
    by (rule conjI [OF ok conjI [OF lt conjI [OF a conjI [OF b conjI [OF s conjI [OF m
          conjI [OF lt' conjI [OF b' conjI [OF mid day]]]]]]]]])
qed

text \<open>
  C3. For every primary date, the date that \<open>adToBS\<close> returns has its month in 1..12 and
  its day in \<open>[1, daysInMonth(year, month)]\<close>, with the \<open>getDaysInBSMonth\<close> of the same
  copy: in the shared library (on a table of positive month lengths), in the mobile
  application and in the web application.
\<close>

theorem adToBS_well_formed:
  "(calendar_ok tbl \<longrightarrow>
      (\<exists>c. adToBS tbl R x = Some c \<and> 1 \<le> month c \<and> month c \<le> 12 \<and> 1 \<le> day c \<and>
           day c \<le> getDaysInBSMonth tbl (year c) (month c))) \<and>
   (1 \<le> month (mobile_adToBS R x) \<and> month (mobile_adToBS R x) \<le> 12 \<and>
    1 \<le> day (mobile_adToBS R x) \<and>
    day (mobile_adToBS R x) \<le>
      mobile_getDaysInBSMonth (year (mobile_adToBS R x)) (month (mobile_adToBS R x))) \<and>
   (\<exists>c n. web_adToBS R x = Some c \<and> 1 \<le> month c \<and> month c \<le> 12 \<and> 1 \<le> day c \<and>
        web_getDaysInBSMonth (year c) (month c) = Some n \<and> day c \<le> n)"
proof -
  have shared: "calendar_ok tbl \<longrightarrow>
      (\<exists>c. adToBS tbl R x = Some c \<and> 1 \<le> month c \<and> month c \<le> 12 \<and> 1 \<le> day c \<and>
           day c \<le> getDaysInBSMonth tbl (year c) (month c))"
  proof
    assume ok: "calendar_ok tbl"
    have "valid_date (getDaysInBSMonth tbl) (walk (getDaysInBSMonth tbl) ((x - R) div msPerDay))"
      by (rule walk_valid [OF calendar_ok_positive_lengths [OF ok]])
    then show "\<exists>c. adToBS tbl R x = Some c \<and> 1 \<le> month c \<and> month c \<le> 12 \<and> 1 \<le> day c \<and>
              day c \<le> getDaysInBSMonth tbl (year c) (month c)"
      by (simp add: adToBS_walk [OF ok] valid_date_def)
  qed
  have "valid_date mobile_getDaysInBSMonth (mobile_adToBS R x)"
    unfolding mobile_adToBS_walk by (rule walk_valid [OF mobile_positive_lengths])
  then have mobile: "1 \<le> month (mobile_adToBS R x) \<and> month (mobile_adToBS R x) \<le> 12 \<and>
          1 \<le> day (mobile_adToBS R x) \<and>
          day (mobile_adToBS R x) \<le>
            mobile_getDaysInBSMonth (year (mobile_adToBS R x)) (month (mobile_adToBS R x))"
    by (simp add: valid_date_def)
  from web_adToBS_valid [of R x]
  obtain c where c: "web_adToBS R x = Some c" "web_valid (year c) (month c) (day c)" by blast
  from c(2) obtain n where n: "web_getDaysInBSMonth (year c) (month c) = Some n" "day c \<le> n"
    by (cases "web_getDaysInBSMonth (year c) (month c)") (simp_all add: web_valid_def)
  from c(2) have "1 \<le> month c" "month c \<le> 12" "1 \<le> day c"
    by (simp_all add: web_valid_def)
  with c(1) n have "web_adToBS R x = Some c \<and> 1 \<le> month c \<and> month c \<le> 12 \<and> 1 \<le> day c \<and>
              web_getDaysInBSMonth (year c) (month c) = Some n \<and> day c \<le> n"
    by simp
  then have web: "\<exists>c n. web_adToBS R x = Some c \<and> 1 \<le> month c \<and> month c \<le> 12 \<and> 1 \<le> day c \<and>
              web_getDaysInBSMonth (year c) (month c) = Some n \<and> day c \<le> n"
    by (intro exI)
  show ?thesis by (rule conjI [OF shared conjI [OF mobile web]])
qed

theorem adToBS_well_formed_witness:
  "calendar_ok [(2080, [31, 32, 31, 32, 31, 30, 30, 30, 29, 30, 29, 31])] \<and>
   adToBS [(2080, [31, 32, 31, 32, 31, 30, 30, 30, 29, 30, 29, 31])] 1681409700000 1687457700000 =
     Some \<lparr>year = 2080, month = 3, day = 8\<rparr> \<and>
   (8::int) \<le> getDaysInBSMonth [(2080, [31, 32, 31, 32, 31, 30, 30, 30, 29, 30, 29, 31])] 2080 3 \<and>
   mobile_adToBS 1681409700000 1687457700000 = \<lparr>year = 2080, month = 3, day = 9\<rparr> \<and>
   (9::int) \<le> mobile_getDaysInBSMonth 2080 3 \<and>
   web_adToBS 1681409700000 1687457700000 = Some \<lparr>year = 2080, month = 3, day = 8\<rparr> \<and>
   (\<exists>n. web_getDaysInBSMonth 2080 3 = Some n \<and> 8 \<le> n)"
proof -
  let ?T = "[(2080, [31, 32, 31, 32, 31, 30, 30, 30, 29, 30, 29, 31])]"
  have ok: "calendar_ok ?T" by (simp add: calendar_ok_def)
  have a: "adToBS ?T 1681409700000 1687457700000 = Some \<lparr>year = 2080, month = 3, day = 8\<rparr>"
    by code_simp
  have b: "mobile_adToBS 1681409700000 1687457700000 = \<lparr>year = 2080, month = 3, day = 9\<rparr>"
    by code_simp
  have c: "web_adToBS 1681409700000 1687457700000 = Some \<lparr>year = 2080, month = 3, day = 8\<rparr>"
    by code_simp
  note wf = adToBS_well_formed [of ?T 1681409700000 1687457700000]
  from wf [THEN conjunct1, rule_format, OF ok] obtain c1 where
    "adToBS ?T 1681409700000 1687457700000 = Some c1"
    "day c1 \<le> getDaysInBSMonth ?T (year c1) (month c1)"
    by blast
  with a have s: "(8::int) \<le> getDaysInBSMonth ?T 2080 3" by simp
  from wf [THEN conjunct2, THEN conjunct1]
  have m: "(9::int) \<le> mobile_getDaysInBSMonth 2080 3" unfolding b by simp
  from wf [THEN conjunct2, THEN conjunct2] obtain c3 n where
    "web_adToBS 1681409700000 1687457700000 = Some c3"
    "web_getDaysInBSMonth (year c3) (month c3) = Some n" "day c3 \<le> n"
    by blast
  with c have w: "\<exists>n. web_getDaysInBSMonth 2080 3 = Some n \<and> 8 \<le> n" by simp
  from ok a s b m c w show ?thesis by (intro conjI)
qed

section \<open>Years outside the table\<close>

lemma defaultDays_nth:
  assumes "1 \<le> m" "m \<le> 12"
  shows "nullish_index defaultDays (m - 1) 30 = defaultDays ! nat (m - 1)"
  using assms by (simp add: nullish_index_def defaultDays_def)

text \<open>
  C4, as the claim states it for the web copy: for the year 2079, which is not in the
  table of the web copy, \<open>getDaysInBSMonth\<close> of the web copy gives 30 for the first and
  for the third month, where the default pattern has 31 and 32.
\<close>

theorem web_unknown_year_counterexample:
  "map_of web_BS_CALENDAR_DATA 2079 = None \<and>
   web_getDaysInBSMonth 2079 1 = Some 30 \<and> defaultDays ! nat (1 - 1) = 31 \<and>
   web_getDaysInBSMonth 2079 3 = Some 30 \<and> defaultDays ! nat (3 - 1) = 32 \<and>
   web_getDaysInBSMonth 2079 1 \<noteq> Some (defaultDays ! nat (1 - 1))"
  by (simp add: web_getDaysInBSMonth_def web_BS_CALENDAR_DATA_def defaultDays_def)

text \<open>
  C4, amended. In the shared library, for every year without an entry in the table and
  every month \<open>m\<close> in 1..12, \<open>getDaysInBSMonth\<close> is the \<open>m\<close>-th entry of the default pattern
  31, 31, 32, 31, 31, 31, 30, 29, 30, 29, 30, 30, and \<open>getDaysInBSYear\<close> is 365. In the web
  copy, \<open>getDaysInBSMonth\<close> is the constant 30 for every month of a year without an entry.
\<close>

theorem unknown_year_fallback:
  "(map_of tbl y = None \<and> 1 \<le> m \<and> m \<le> 12 \<longrightarrow>
      getDaysInBSMonth tbl y m = defaultDays ! nat (m - 1) \<and> getDaysInBSYear tbl y = 365) \<and>
   (map_of web_BS_CALENDAR_DATA y = None \<longrightarrow> web_getDaysInBSMonth y m = Some 30)"
  by (simp add: getDaysInBSMonth_def getDaysInBSYear_def defaultDays_nth web_getDaysInBSMonth_def)

theorem unknown_year_fallback_witness:
  "map_of [(2080, [31, 32, 31, 32, 31, 30, 30, 30, 29, 30, 29, 31])] (2095::int) = None \<and>
   getDaysInBSMonth [(2080, [31, 32, 31, 32, 31, 30, 30, 30, 29, 30, 29, 31])] 2095 3 = 32 \<and>
   getDaysInBSYear [(2080, [31, 32, 31, 32, 31, 30, 30, 30, 29, 30, 29, 31])] 2095 = 365 \<and>
   map_of web_BS_CALENDAR_DATA 2095 = None \<and>
   web_getDaysInBSMonth 2095 3 = Some 30"
proof -
  let ?T = "[(2080, [31, 32, 31, 32, 31, 30, 30, 30, 29, 30, 29, 31])]"
  have n: "map_of ?T (2095::int) = None" by simp
  have w: "map_of web_BS_CALENDAR_DATA 2095 = None" by (simp add: web_BS_CALENDAR_DATA_def)
  note f = unknown_year_fallback [of ?T 2095 3]
  from f [THEN conjunct1] n
  have s: "getDaysInBSMonth ?T 2095 3 = 32 \<and> getDaysInBSYear ?T 2095 = 365"
    by (simp add: defaultDays_def)
  from f [THEN conjunct2] w have "web_getDaysInBSMonth 2095 3 = Some 30" by simp
  with n s w show ?thesis by simp
qed

section \<open>Decimal numerals and their localization\<close>

declare decimal.simps [simp del]

lemma decimal_digits: "list_all (\<lambda>c. 48 \<le> c \<and> c \<le> 57) (decimal n)"
proof (induction n rule: decimal.induct)
  case (1 n)
  show ?case
  proof (cases "n < 10")
    case True
    then show ?thesis by (subst decimal.simps) simp
  next
    case False
    have "n mod 10 < 10" by simp
    then have "48 + n mod 10 \<le> 57" by arith
    with False 1 show ?thesis by (subst decimal.simps) simp
  qed
qed

lemma decimal_nonempty: "decimal n \<noteq> []"
  by (subst decimal.simps) simp

lemma decimal_value: "foldl (\<lambda>a c. 10 * a + (c - 48)) 0 (decimal n) = n"
proof (induction n rule: decimal.induct)
  case (1 n)
  show ?case
  proof (cases "n < 10")
    case True
    then show ?thesis by (subst decimal.simps) simp
  next
    case False
    with 1 show ?thesis by (subst decimal.simps) simp
  qed
qed

lemma length_decimal_le_2:
  assumes "n < 100"
  shows "length (decimal n) \<le> 2"
proof (cases "n < 10")
  case True
  then show ?thesis by (subst decimal.simps) simp
next
  case False
  with assms have "n div 10 < 10" by simp
  then have "length (decimal (n div 10)) = 1" by (subst decimal.simps) simp
  with False show ?thesis by (subst decimal.simps) simp
qed

lemma read_decimal_decimal: "read_decimal (decimal n) = Some (int n)"
  by (simp add: read_decimal_def decimal_digits decimal_nonempty decimal_value)

lemma foldl_leading_zeros:
  "foldl (\<lambda>a c. 10 * a + (c - 48)) 0 (replicate k 48 @ s) = foldl (\<lambda>a c. 10 * a + (c - 48)) (0::nat) s"
  by (induction k) simp_all

lemma padStart2_digits:
  "list_all (\<lambda>c. 48 \<le> c \<and> c \<le> 57) (padStart2 (decimal n))"
  using decimal_digits [of n] by (auto simp: padStart2_def list_all_iff)

lemma read_decimal_padStart2: "read_decimal (padStart2 (decimal n)) = Some (int n)"
proof -
  have "padStart2 (decimal n) \<noteq> []" by (simp add: padStart2_def decimal_nonempty)
  moreover have "foldl (\<lambda>a c. 10 * a + (c - 48)) 0 (padStart2 (decimal n)) = n"
    unfolding padStart2_def foldl_leading_zeros by (rule decimal_value)
  ultimately show ?thesis by (simp add: read_decimal_def padStart2_digits)
qed

lemma length_padStart2:
  assumes "n < 100"
  shows "length (padStart2 (decimal n)) = 2"
proof -
  have "1 \<le> length (decimal n)" using decimal_nonempty [of n] by (cases "decimal n") simp_all
  with length_decimal_le_2 [OF assms] show ?thesis by (simp add: padStart2_def)
qed

lemma fromNepaliDigits_toNepaliDigits:
  assumes "list_all (\<lambda>c. 48 \<le> c \<and> c \<le> 57) s"
  shows "fromNepaliDigits (toNepaliDigits s) = s"
  using assms
  by (induction s) (simp_all add: fromNepaliDigits_def toNepaliDigits_map localize_char_def delocalize_char_def)

lemma toNepaliDigits_no_hyphen:
  assumes "list_all (\<lambda>c. 48 \<le> c \<and> c \<le> 57) s"
  shows "45 \<notin> set (toNepaliDigits s)"
  using assms by (induction s) (simp_all add: toNepaliDigits_map localize_char_def)

section \<open>Splitting on a separator\<close>

lemma split_on_no_sep: "sep \<notin> set a \<Longrightarrow> split_on sep a = [a]"
  by (induction a) simp_all

lemma split_on_append: "sep \<notin> set a \<Longrightarrow> split_on sep (a @ sep # rest) = a # split_on sep rest"
  by (induction a) simp_all

lemma parseShort_fields:
  assumes "list_all (\<lambda>c. 48 \<le> c \<and> c \<le> 57) a" "list_all (\<lambda>c. 48 \<le> c \<and> c \<le> 57) b"
    "list_all (\<lambda>c. 48 \<le> c \<and> c \<le> 57) c"
    "read_decimal a = Some y" "read_decimal b = Some m" "read_decimal c = Some d"
  shows "parseShort (toNepaliDigits a @ [45] @ toNepaliDigits b @ [45] @ toNepaliDigits c) =
         Some \<lparr>year = y, month = m, day = d\<rparr>"
proof -
  have "split_on 45 (toNepaliDigits a @ [45] @ toNepaliDigits b @ [45] @ toNepaliDigits c) =
        [toNepaliDigits a, toNepaliDigits b, toNepaliDigits c]"
    using toNepaliDigits_no_hyphen [OF assms(1)] toNepaliDigits_no_hyphen [OF assms(2)]
      toNepaliDigits_no_hyphen [OF assms(3)]
    by (simp add: split_on_append split_on_no_sep)
  then show ?thesis
    unfolding parseShort_def
    by (simp add: fromNepaliDigits_toNepaliDigits assms)
qed

lemma Number_toString_safe:
  assumes "0 \<le> n" "n \<le> 9007199254740991"
  shows "Number_toString big n = decimal (nat n)"
  using assms by (simp add: Number_toString_def)

lemma short_fields_parse:
  assumes "0 \<le> year d" "year d \<le> 9007199254740991"
    "1 \<le> month d" "month d \<le> 12" "1 \<le> day d" "day d \<le> 31"
  shows "parseShort
           (toNepaliDigits (Number_toString big (year d)) @ [45] @
            toNepaliDigits (padStart2 (Number_toString big (month d))) @ [45] @
            toNepaliDigits (padStart2 (Number_toString big (day d)))) = Some d"
proof -
  from assms have s: "Number_toString big (year d) = decimal (nat (year d))"
    "Number_toString big (month d) = decimal (nat (month d))"
    "Number_toString big (day d) = decimal (nat (day d))"
    by (simp_all add: Number_toString_safe)
  from assms have i: "int (nat (year d)) = year d" "int (nat (month d)) = month d"
    "int (nat (day d)) = day d"
    by simp_all
  have "parseShort
           (toNepaliDigits (decimal (nat (year d))) @ [45] @
            toNepaliDigits (padStart2 (decimal (nat (month d)))) @ [45] @
            toNepaliDigits (padStart2 (decimal (nat (day d))))) =
        Some \<lparr>year = int (nat (year d)), month = int (nat (month d)), day = int (nat (day d))\<rparr>"
    by (rule parseShort_fields [OF decimal_digits padStart2_digits padStart2_digits
          read_decimal_decimal read_decimal_padStart2 read_decimal_padStart2])
  then show ?thesis unfolding s i by simp
qed

text \<open>
  C8, as the claim states it. The date with year -1, month 1 and day 1 has month and day
  in range, and its short form does not read back: the minus sign of the year is the
  separator itself, so the split gives four fields, the first of them empty. The same
  holds for the web copy. At the other end, the year \<open>10^21\<close> is written in exponent
  notation, \<open>1e+21\<close>, and the first field of the short form is no decimal numeral.
\<close>

theorem short_round_trip_counterexample:
  "formatBSDate exponent_text web_BS_MONTHS \<lparr>year = - 1, month = 1, day = 1\<rparr> Short =
     [45, 2407, 45, 2406, 2407, 45, 2406, 2407] \<and>
   split_on 45
       (formatBSDate exponent_text web_BS_MONTHS \<lparr>year = - 1, month = 1, day = 1\<rparr> Short) =
     [[], [2407], [2406, 2407], [2406, 2407]] \<and>
   parseShort
       (formatBSDate exponent_text web_BS_MONTHS \<lparr>year = - 1, month = 1, day = 1\<rparr> Short) \<noteq>
     Some \<lparr>year = - 1, month = 1, day = 1\<rparr> \<and>
   parseShort (web_formatBSDate exponent_text \<lparr>year = - 1, month = 1, day = 1\<rparr> WebShort) \<noteq>
     Some \<lparr>year = - 1, month = 1, day = 1\<rparr> \<and>
   formatBSDate exponent_text web_BS_MONTHS
       \<lparr>year = 1000000000000000000000, month = 1, day = 1\<rparr> Short =
     [2407, 101, 43, 2408, 2407, 45, 2406, 2407, 45, 2406, 2407] \<and>
   parseShort
       (formatBSDate exponent_text web_BS_MONTHS
          \<lparr>year = 1000000000000000000000, month = 1, day = 1\<rparr> Short) \<noteq>
     Some \<lparr>year = 1000000000000000000000, month = 1, day = 1\<rparr>"
proof -
  let ?d = "\<lparr>year = - 1, month = 1, day = 1\<rparr>"
  let ?e = "\<lparr>year = 1000000000000000000000, month = 1, day = 1\<rparr>"
  have f: "formatBSDate exponent_text web_BS_MONTHS ?d Short =
      [45, 2407, 45, 2406, 2407, 45, 2406, 2407]"
    by (simp add: formatBSDate_def Number_toString_def padStart2_def toNepaliDigits_map
        localize_char_def decimal.simps)
  have w: "web_formatBSDate exponent_text ?d WebShort = [45, 2407, 45, 2406, 2407, 45, 2406, 2407]"
    by (simp add: web_formatBSDate_def Number_toString_def padStart2_def toNepaliDigits_map
        localize_char_def decimal.simps)
  have s: "split_on 45 [45, 2407, 45, 2406, 2407, 45, 2406, 2407] =
      [[], [2407], [2406, 2407], [2406, 2407]]"
    by simp
  have p: "parseShort [45, 2407, 45, 2406, 2407, 45, 2406, 2407] = None"
    unfolding parseShort_def s by (simp add: read_decimal_def fromNepaliDigits_def)
  have g: "formatBSDate exponent_text web_BS_MONTHS ?e Short =
      [2407, 101, 43, 2408, 2407, 45, 2406, 2407, 45, 2406, 2407]"
    by (simp add: formatBSDate_def Number_toString_def exponent_text_def padStart2_def
        toNepaliDigits_map localize_char_def decimal.simps)
  have s': "split_on 45 [2407, 101, 43, 2408, 2407, 45, 2406, 2407, 45, 2406, 2407] =
      [[2407, 101, 43, 2408, 2407], [2406, 2407], [2406, 2407]]"
    by simp
  have q: "parseShort [2407, 101, 43, 2408, 2407, 45, 2406, 2407, 45, 2406, 2407] = None"
    unfolding parseShort_def s'
    by (simp add: read_decimal_def fromNepaliDigits_def delocalize_char_def)
  show ?thesis unfolding f w s p g q by simp
qed

text \<open>
  C8, amended. For every date with a year from 0 to 9007199254740991 (a safe integer that
  is not negative), a month in 1..12 and a day in 1..31, the short style (of the shared
  library and of the web copy alike) is the localized year, a hyphen, the localized month,
  a hyphen and the localized day, where month and day are padded to exactly two digits
  before they are localized; splitting it on the hyphen and reversing the localization
  gives back the year, month and day.
\<close>

theorem short_round_trip:
  assumes "0 \<le> year d" "year d \<le> 9007199254740991"
    "1 \<le> month d" "month d \<le> 12" "1 \<le> day d" "day d \<le> 31"
  shows "formatBSDate big BS_MONTHS d Short =
           toNepaliDigits (Number_toString big (year d)) @ [45] @
           toNepaliDigits (padStart2 (Number_toString big (month d))) @ [45] @
           toNepaliDigits (padStart2 (Number_toString big (day d))) \<and>
         web_formatBSDate big d WebShort = formatBSDate big BS_MONTHS d Short \<and>
         Number_toString big (year d) = decimal (nat (year d)) \<and>
         length (padStart2 (Number_toString big (month d))) = 2 \<and>
         length (padStart2 (Number_toString big (day d))) = 2 \<and>
         parseShort (formatBSDate big BS_MONTHS d Short) = Some d"
proof -
  have f: "formatBSDate big BS_MONTHS d Short =
           toNepaliDigits (Number_toString big (year d)) @ [45] @
           toNepaliDigits (padStart2 (Number_toString big (month d))) @ [45] @
           toNepaliDigits (padStart2 (Number_toString big (day d)))"
    by (simp add: formatBSDate_def)
  have w: "web_formatBSDate big d WebShort = formatBSDate big BS_MONTHS d Short"
    by (simp add: formatBSDate_def web_formatBSDate_def)
  from assms have y: "Number_toString big (year d) = decimal (nat (year d))"
    by (simp add: Number_toString_safe)
  from assms have s: "Number_toString big (month d) = decimal (nat (month d))"
    "Number_toString big (day d) = decimal (nat (day d))"
    by (simp_all add: Number_toString_safe)
  from assms have "nat (month d) < 100" "nat (day d) < 100" by simp_all
  then have l: "length (padStart2 (Number_toString big (month d))) = 2"
    "length (padStart2 (Number_toString big (day d))) = 2"
    unfolding s by (simp_all add: length_padStart2)
  have p: "parseShort (formatBSDate big BS_MONTHS d Short) = Some d"
    unfolding f by (rule short_fields_parse [OF assms])
  show ?thesis
    by (rule conjI [OF f conjI [OF w conjI [OF y conjI [OF l(1) conjI [OF l(2) p]]]]])
qed

theorem short_round_trip_witness:
  "(0::int) \<le> 2082 \<and> (2082::int) \<le> 9007199254740991 \<and>
   (1::int) \<le> 9 \<and> (9::int) \<le> 12 \<and> (1::int) \<le> 14 \<and> (14::int) \<le> 31 \<and>
   formatBSDate exponent_text web_BS_MONTHS \<lparr>year = 2082, month = 9, day = 14\<rparr> Short =
     [2408, 2406, 2414, 2408, 45, 2406, 2415, 45, 2407, 2410] \<and>
   parseShort [2408, 2406, 2414, 2408, 45, 2406, 2415, 45, 2407, 2410] =
     Some \<lparr>year = 2082, month = 9, day = 14\<rparr>"
proof -
  let ?d = "\<lparr>year = 2082, month = 9, day = 14\<rparr>"
  have f: "formatBSDate exponent_text web_BS_MONTHS ?d Short =
      [2408, 2406, 2414, 2408, 45, 2406, 2415, 45, 2407, 2410]"
    by (simp add: formatBSDate_def Number_toString_def padStart2_def toNepaliDigits_map
        localize_char_def decimal.simps)
  have h: "0 \<le> year ?d" "year ?d \<le> 9007199254740991" "1 \<le> month ?d" "month ?d \<le> 12"
    "1 \<le> day ?d" "day ?d \<le> 31"
    by simp_all
  note r = short_round_trip [OF h, of exponent_text web_BS_MONTHS]
  note p = r [THEN conjunct2, THEN conjunct2, THEN conjunct2, THEN conjunct2, THEN conjunct2,
      unfolded f]
  have "(0::int) \<le> 2082 \<and> (2082::int) \<le> 9007199254740991 \<and>
      (1::int) \<le> 9 \<and> (9::int) \<le> 12 \<and> (1::int) \<le> 14 \<and> (14::int) \<le> 31"
    by simp
  with f p show ?thesis by (simp only: simp_thms)
qed

section \<open>Month names outside the table\<close>

text \<open>
  C10. \<open>formatBSDate\<close> of the shared library has a value for every date and every style:
  it is a total function of the model, and nothing in it can throw, because the read of
  the month name falls back to the empty string. With a table of 12 names and a month
  below 1 or above 12, the full style is the localized day, two spaces and the localized
  year, and the long style is a space, the localized day, a comma, a space and the
  localized year: the month name is the empty string.
\<close>

theorem formatBSDate_month_outside_table:
  assumes "length BS_MONTHS = 12" "month d < 1 \<or> 12 < month d"
  shows "formatBSDate big BS_MONTHS d Full =
           toNepaliDigits (Number_toString big (day d)) @ [32] @ [] @ [32] @
           toNepaliDigits (Number_toString big (year d)) \<and>
         formatBSDate big BS_MONTHS d Long =
           [] @ [32] @ toNepaliDigits (Number_toString big (day d)) @ [44, 32] @
           toNepaliDigits (Number_toString big (year d))"
proof -
  from assms have "nullish_name BS_MONTHS (month d - 1) = []"
    by (auto simp: nullish_name_def)
  then show ?thesis by (simp add: formatBSDate_def)
qed

theorem formatBSDate_month_outside_table_witness:
  "length web_BS_MONTHS = 12 \<and> ((13::int) < 1 \<or> (12::int) < 13) \<and>
   formatBSDate exponent_text web_BS_MONTHS \<lparr>year = 2082, month = 13, day = 14\<rparr> Full =
     [2407, 2410, 32, 32, 2408, 2406, 2414, 2408] \<and>
   formatBSDate exponent_text web_BS_MONTHS \<lparr>year = 2082, month = 13, day = 14\<rparr> Long =
     [32, 2407, 2410, 44, 32, 2408, 2406, 2414, 2408]"
proof -
  let ?d = "\<lparr>year = 2082, month = 13, day = 14\<rparr>"
  have l: "length web_BS_MONTHS = 12" by (simp add: web_BS_MONTHS_def)
  have m: "month ?d < 1 \<or> 12 < month ?d" by simp
  have n: "toNepaliDigits (Number_toString exponent_text 14) = [2407, 2410]"
    "toNepaliDigits (Number_toString exponent_text 2082) = [2408, 2406, 2414, 2408]"
    by (simp_all add: Number_toString_def toNepaliDigits_map localize_char_def decimal.simps)
  from formatBSDate_month_outside_table [OF l m, of exponent_text] l show ?thesis
    by (simp add: n)
qed

section \<open>Relative time\<close>

lemma getRelativeTimeNepali_future:
  assumes "now < date"
  shows "getRelativeTimeNepali tbl R big BS_MONTHS now date =
         map_option (\<lambda>bs. formatBSDate big BS_MONTHS bs Full) (adToBS tbl R date)"
  using assms by (simp add: getRelativeTimeNepali_def)

lemma web_getRelativeTimeNepali_future:
  assumes "now < date"
  shows "web_getRelativeTimeNepali R big now date = Some phrase_just_now"
proof -
  from assms have "(now - date) div (1000 * 60) < 1" by simp
  then show ?thesis by (simp add: web_getRelativeTimeNepali_def Let_def)
qed

text \<open>
  C6 at the future timestamp of the specification's own example, 2026-01-05T00:00:00Z
  seen from 2025-12-29T12:00:00Z (the reference is 2023-04-14 at midnight in Nepal).
  The web copy has no branch for a timestamp after \<open>now\<close>: the negative number of
  minutes is below 1 and the result is the "just now" phrase. The shared library
  returns the full-style date, the 21st of the ninth month of 2082 on the table of the
  web copy.
\<close>

theorem web_future_timestamp:
  "web_getRelativeTimeNepali 1681409700000 exponent_text 1767009600000 1767571200000 =
     Some phrase_just_now \<and>
   getRelativeTimeNepali web_BS_CALENDAR_DATA 1681409700000 exponent_text web_BS_MONTHS
       1767009600000 1767571200000 =
     Some [2408, 2407, 32, 2346, 2369, 2359, 32, 2408, 2406, 2414, 2408]"
proof -
  have lt: "(1767009600000::int) < 1767571200000" by simp
  have a: "adToBS web_BS_CALENDAR_DATA 1681409700000 1767571200000 =
      Some \<lparr>year = 2082, month = 9, day = 21\<rparr>"
    by code_simp
  have f: "formatBSDate exponent_text web_BS_MONTHS \<lparr>year = 2082, month = 9, day = 21\<rparr> Full =
      [2408, 2407, 32, 2346, 2369, 2359, 32, 2408, 2406, 2414, 2408]"
    by (simp add: formatBSDate_def nullish_name_def web_BS_MONTHS_def Number_toString_def
        toNepaliDigits_map localize_char_def decimal.simps)
  show ?thesis
    unfolding web_getRelativeTimeNepali_future [OF lt] getRelativeTimeNepali_future [OF lt] a
    by (simp add: f)
qed

lemma div_bounds:
  assumes "(L::int) \<le> e" "e \<le> U" "0 < k"
  shows "L div k \<le> e div k" "e div k \<le> U div k"
  using assms by (simp_all add: zdiv_mono1)

lemma one_day_elapsed:
  assumes "(e::int) div 1000 div 60 div 60 div 24 = 1"
  shows "86400000 \<le> e" "e \<le> 172799999"
proof -
  have "e div 1000 div 60 div 60 div 24 = e div 86400000"
    by (simp add: zdiv_zmult2_eq [symmetric])
  with assms have d: "e div 86400000 = 1" by simp
  have "86400000 * (e div 86400000) + e mod 86400000 = e" by (rule mult_div_mod_eq)
  moreover have "0 \<le> e mod 86400000" "e mod 86400000 < 86400000" by simp_all
  ultimately show "86400000 \<le> e" "e \<le> 172799999" unfolding d by simp_all
qed

text \<open>
  One whole day of elapsed time in the two implementations. If the elapsed time,
  floor-divided to days, is exactly 1 (so that it is at least 24 hours),
  \<open>getRelativeTimeNepali\<close> of the shared library returns the "yesterday" phrase, although
  1 is also below 7: the bucket comes before the "days ago" bucket. \<open>formatRelativeTime\<close>
  of the mobile copy has no such bucket and returns the localized 1 followed by the
  "days ago" suffix.
\<close>

lemma one_day_buckets:
  assumes "(now - date) div 1000 div 60 div 60 div 24 = 1"
  shows "24 \<le> (now - date) div 1000 div 60 div 60 \<and>
         getRelativeTimeNepali tbl R big BS_MONTHS now date = Some phrase_yesterday \<and>
         formatRelativeTime R big now date =
           toNepaliDigits (Number_toString big 1) @ suffix_days_ago"
proof -
  define e where "e = now - date"
  note b = one_day_elapsed [OF assms [folded e_def]]
  from b have e0: "\<not> e < 0" by simp
  from div_bounds [OF b, of 1000] have b1: "86400 \<le> e div 1000" "e div 1000 \<le> 172799"
    by simp_all
  from div_bounds [OF b1, of 60] have b2: "1440 \<le> e div 1000 div 60" "e div 1000 div 60 \<le> 2879"
    by simp_all
  from div_bounds [OF b2, of 60]
  have b3: "24 \<le> e div 1000 div 60 div 60" "e div 1000 div 60 div 60 \<le> 47"
    by simp_all
  from e0 b1 b2 b3 have s: "\<not> e < 0" "\<not> e div 1000 < 60" "\<not> e div 1000 div 60 < 60"
    "\<not> e div 1000 div 60 div 60 < 24" "24 \<le> e div 1000 div 60 div 60"
    by simp_all
  from div_bounds [OF b, of 60000] have m1: "1440 \<le> e div 60000" by simp
  from div_bounds [OF b, of 3600000] have m2: "24 \<le> e div 3600000" by simp
  from div_bounds [OF b, of 86400000] have m3: "e div 86400000 = 1" by simp
  from m1 m2 m3 have m: "\<not> e div (1000 * 60) < 1" "\<not> e div (1000 * 60) < 60"
    "\<not> e div (1000 * 60 * 60) < 24" "e div (1000 * 60 * 60 * 24) = 1"
    by simp_all
  have shared: "getRelativeTimeNepali tbl R big BS_MONTHS now date = Some phrase_yesterday"
    unfolding getRelativeTimeNepali_def Let_def e_def [symmetric]
    using s assms [folded e_def] by (simp only: if_False if_True simp_thms)
  have mobile: "formatRelativeTime R big now date =
      toNepaliDigits (Number_toString big 1) @ suffix_days_ago"
    unfolding formatRelativeTime_def Let_def e_def [symmetric]
    using m by (simp only: if_False if_True simp_thms) simp
  from s(5) shared mobile show ?thesis unfolding e_def by simp
qed

text \<open>
  C7 at the timestamp of the specification's own example, 2025-12-28T12:00:00Z seen from
  2025-12-29T12:00:00Z, one whole day later. \<open>formatRelativeTime\<close> of the mobile copy
  goes from the hours bucket straight to the "days ago" bucket: the result is the
  localized 1 followed by the "days ago" suffix, not the "yesterday" phrase, which
  \<open>getRelativeTimeNepali\<close> of the shared library returns at the same input.
\<close>

theorem mobile_one_day_ago:
  "formatRelativeTime 1681409700000 exponent_text 1767009600000 1766923200000 =
     [2407, 32, 2342, 2367, 2344, 32, 2309, 2328, 2367] \<and>
   formatRelativeTime 1681409700000 exponent_text 1767009600000 1766923200000 \<noteq>
     phrase_yesterday \<and>
   getRelativeTimeNepali web_BS_CALENDAR_DATA 1681409700000 exponent_text web_BS_MONTHS
     1767009600000 1766923200000 = Some phrase_yesterday"
proof -
  have h: "((1767009600000::int) - 1766923200000) div 1000 div 60 div 60 div 24 = 1" by simp
  note o = one_day_buckets [OF h, of web_BS_CALENDAR_DATA 1681409700000 exponent_text
      web_BS_MONTHS]
  have n: "toNepaliDigits (Number_toString exponent_text 1) @ suffix_days_ago =
      [2407, 32, 2342, 2367, 2344, 32, 2309, 2328, 2367]"
    by (simp add: suffix_days_ago_def Number_toString_def toNepaliDigits_map localize_char_def
        decimal.simps)
  have m: "formatRelativeTime 1681409700000 exponent_text 1767009600000 1766923200000 =
      [2407, 32, 2342, 2367, 2344, 32, 2309, 2328, 2367]"
    using o [THEN conjunct2, THEN conjunct2] unfolding n .
  have d: "formatRelativeTime 1681409700000 exponent_text 1767009600000 1766923200000 \<noteq>
      phrase_yesterday"
    unfolding m by (simp add: phrase_yesterday_def)
  show ?thesis by (rule conjI [OF m conjI [OF d o [THEN conjunct2, THEN conjunct1]]])
qed

end
